theory Spec2Isabelle
  imports Complex_Main "HOL-Library.Word" "HOL-Library.Sublist"
begin

section \<open>JavaScript strings\<close>

text \<open>
  A JavaScript string is a finite sequence of 16-bit code units; \<open>endsWith\<close>,
  concatenation and \<open>JSON.stringify\<close> all work on code units. \<open>str\<close> turns an
  ASCII literal of the source into its code units.
\<close>

type_synonym jschar = "16 word"
type_synonym jsstring = "jschar list"

definition str :: "string \<Rightarrow> jsstring" where
  "str s = map (\<lambda>c. of_nat (of_char c)) s"



section \<open>The file registry (\<open>useFiles\<close>)\<close>

text \<open>\<open>type FileItem = { id; name; content; createdAt; updatedAt }\<close>.
  The timestamps are readings of \<open>Date.now()\<close>: integers (milliseconds).\<close>

record FileItem =
  id_file :: jsstring
  name :: jsstring
  content :: jsstring
  createdAt :: int
  updatedAt :: int

text \<open>\<open>Partial<FileItem>\<close>: every field may be absent.\<close>

record FileItem_Partial =
  id_upd :: "jsstring option"
  name_upd :: "jsstring option"
  content_upd :: "jsstring option"
  createdAt_upd :: "int option"
  updatedAt_upd :: "int option"

text \<open>The object literal \<open>{ content: X }\<close> that \<open>handleSave\<close> passes.\<close>

definition content_only :: "jsstring \<Rightarrow> FileItem_Partial" where
  "content_only X =
     \<lparr>id_upd = None, name_upd = None, content_upd = Some X,
      createdAt_upd = None, updatedAt_upd = None\<rparr>"


text \<open>The object spread \<open>{ ...f, ...updates, updatedAt: Date.now() }\<close>: a field
  present in \<open>updates\<close> replaces that of \<open>f\<close>, then \<open>updatedAt\<close> is set.\<close>

definition spread :: "FileItem \<Rightarrow> FileItem_Partial \<Rightarrow> int \<Rightarrow> FileItem" where
  "spread f updates now =
     \<lparr>id_file = (case id_upd updates of None \<Rightarrow> id_file f | Some v \<Rightarrow> v),
      name = (case name_upd updates of None \<Rightarrow> name f | Some v \<Rightarrow> v),
      content = (case content_upd updates of None \<Rightarrow> content f | Some v \<Rightarrow> v),
      createdAt = (case createdAt_upd updates of None \<Rightarrow> createdAt f | Some v \<Rightarrow> v),
      updatedAt = now\<rparr>"

text \<open>\<open>updateFile\<close>: \<open>prev.map((f) => f.id === id ? {...} : f)\<close>, with \<open>now\<close> the
  reading of \<open>Date.now()\<close>.\<close>

definition updateFile :: "jsstring \<Rightarrow> FileItem_Partial \<Rightarrow> int \<Rightarrow> FileItem list \<Rightarrow> FileItem list" where
  "updateFile i updates now prev =
     map (\<lambda>f. if id_file f = i then spread f updates now else f) prev"

text \<open>\<open>deleteFile\<close>: \<open>prev.filter((f) => f.id !== id)\<close>.\<close>

definition deleteFile :: "jsstring \<Rightarrow> FileItem list \<Rightarrow> FileItem list" where
  "deleteFile i prev = filter (\<lambda>f. id_file f \<noteq> i) prev"

text \<open>\<open>getFile\<close>: \<open>files.find((f) => f.id === id)\<close>; \<open>undefined\<close> is \<open>None\<close>.\<close>

definition getFile :: "FileItem list \<Rightarrow> jsstring \<Rightarrow> FileItem option" where
  "getFile files i = find (\<lambda>f. id_file f = i) files"

text \<open>Sample documents used by the concrete instances below.\<close>

definition doc_a :: FileItem where
  "doc_a = \<lparr>id_file = str ''a'', name = str ''a.md'', content = str ''# A'',
            createdAt = 1000, updatedAt = 2000\<rparr>"

definition doc_b :: FileItem where
  "doc_b = \<lparr>id_file = str ''b'', name = str ''b.md'', content = str ''# B'',
            createdAt = 1500, updatedAt = 1500\<rparr>"



section \<open>The notification queue (\<open>useToast\<close>)\<close>

datatype ToastType = success | error | info

text \<open>\<open>type Toast = { id: number; type; message }\<close>.\<close>

record Toast =
  id_toast :: int
  type_toast :: ToastType
  message :: jsstring

text \<open>
  The world of the queue: the React state \<open>toasts\<close>, the callbacks that \<open>setTimeout\<close> has
  scheduled and that have not run yet (each is \<open>() => setToasts((prev) => prev.filter((t)
  => t.id !== id))\<close>, so the time it is due and the \<open>id\<close> it captured determine it), and
  the clock of the timers, in milliseconds.
\<close>

record toast_world =
  toasts :: "Toast list"
  timers :: "(int \<times> int) list"
  clock :: int

text \<open>
  \<open>addToast\<close>. \<open>dateNow\<close> is the reading of \<open>Date.now()\<close>; the new toast is \<open>{ ...toast, id }\<close>
  with \<open>toast\<close> the given type and message, appended to the state; the callback is
  scheduled 5000 ms from now.
\<close>

definition addToast :: "int \<Rightarrow> ToastType \<Rightarrow> jsstring \<Rightarrow> toast_world \<Rightarrow> toast_world" where
  "addToast dateNow ty msg w =
     w\<lparr>toasts := toasts w @ [\<lparr>id_toast = dateNow, type_toast = ty, message = msg\<rparr>],
       timers := timers w @ [(clock w + 5000, dateNow)]\<rparr>"

text \<open>\<open>removeToast\<close>: \<open>setToasts((prev) => prev.filter((t) => t.id !== id))\<close>.\<close>

definition removeToast :: "int \<Rightarrow> toast_world \<Rightarrow> toast_world" where
  "removeToast i w = w\<lparr>toasts := filter (\<lambda>t. id_toast t \<noteq> i) (toasts w)\<rparr>"

text \<open>The body of a scheduled callback, run when its timer fires.\<close>

definition timeout_callback :: "int \<Rightarrow> toast_world \<Rightarrow> toast_world" where
  "timeout_callback i w = w\<lparr>toasts := filter (\<lambda>t. id_toast t \<noteq> i) (toasts w)\<rparr>"

text \<open>
  Time passes: the clock advances by \<open>dt\<close> milliseconds and every callback that is due by
  then runs, in the order of scheduling, and leaves the list of pending callbacks.
\<close>

definition elapse :: "nat \<Rightarrow> toast_world \<Rightarrow> toast_world" where
  "elapse dt w =
     (let t = clock w + int dt;
          due = filter (\<lambda>(d, i). d \<le> t) (timers w);
          pending = filter (\<lambda>(d, i). \<not> d \<le> t) (timers w)
      in fold (\<lambda>(d, i). timeout_callback i) due (w\<lparr>clock := t, timers := pending\<rparr>))"

text \<open>What can happen to the queue, and a run of such events from a world.\<close>

datatype toast_event =
    AddToast int ToastType jsstring
  | RemoveToast int
  | Elapse nat

fun toast_step :: "toast_event \<Rightarrow> toast_world \<Rightarrow> toast_world" where
  "toast_step (AddToast dateNow ty msg) w = addToast dateNow ty msg w"
| "toast_step (RemoveToast i) w = removeToast i w"
| "toast_step (Elapse dt) w = elapse dt w"

definition toast_run :: "toast_world \<Rightarrow> toast_event list \<Rightarrow> toast_world" where
  "toast_run w evs = fold toast_step evs w"

text \<open>
  A toast is identified by its id only. \<open>reused_late i deadline w evs\<close> says that in the
  run of \<open>evs\<close> from \<open>w\<close> some \<open>addToast\<close> gets the reading \<open>i\<close> from \<open>Date.now()\<close> when
  the clock has reached \<open>deadline\<close>: another notification, enqueued at or after the
  deadline, then carries the id \<open>i\<close>.
\<close>

fun reused_late :: "int \<Rightarrow> int \<Rightarrow> toast_world \<Rightarrow> toast_event list \<Rightarrow> bool" where
  "reused_late i deadline w [] = False"
| "reused_late i deadline w (ev # evs) =
     ((case ev of AddToast j ty msg \<Rightarrow> j = i \<and> deadline \<le> clock w | _ \<Rightarrow> False)
      \<or> reused_late i deadline (toast_step ev w) evs)"

definition toast_ids :: "toast_world \<Rightarrow> int list" where
  "toast_ids w = map id_toast (toasts w)"

definition empty_queue :: toast_world where
  "empty_queue = \<lparr>toasts = [], timers = [], clock = 0\<rparr>"

text \<open>The invariant behind automatic removal: until the deadline the callback that
  captured \<open>i\<close> is pending; from the deadline on no toast has id \<open>i\<close>.\<close>

definition expiry_inv :: "int \<Rightarrow> int \<Rightarrow> toast_world \<Rightarrow> bool" where
  "expiry_inv i deadline w =
     (if clock w < deadline then (deadline, i) \<in> set (timers w)
      else i \<notin> id_toast ` set (toasts w))"

text \<open>A sample run: two seconds pass, another toast is enqueued, three more seconds pass.\<close>

definition sample_events :: "toast_event list" where
  "sample_events = [Elapse 2000, AddToast 3000 info (str ''File deleted''), Elapse 3000]"


section \<open>The theme resolver (\<open>useTheme\<close>)\<close>

text \<open>\<open>type Theme = "light" | "dark" | "system"\<close>, and the string each member is.\<close>

datatype Theme = light | dark | system

definition theme_string :: "Theme \<Rightarrow> jsstring" where
  "theme_string t =
     (case t of light \<Rightarrow> str ''light'' | dark \<Rightarrow> str ''dark'' | system \<Rightarrow> str ''system'')"

text \<open>
  \<open>document.documentElement.classList\<close> is a \<open>DOMTokenList\<close>: an ordered set of tokens.
  \<open>remove\<close> drops the given tokens; \<open>add\<close> appends a token that is not there yet.
\<close>

definition classList_remove :: "jsstring list \<Rightarrow> jsstring list \<Rightarrow> jsstring list" where
  "classList_remove tokens cl = filter (\<lambda>c. c \<notin> set tokens) cl"

definition classList_add :: "jsstring \<Rightarrow> jsstring list \<Rightarrow> jsstring list" where
  "classList_add token cl = (if token \<in> set cl then cl else cl @ [token])"

text \<open>
  The world of the resolver: the React state \<open>theme\<close>; the value stored under the key
  \<open>"theme"\<close> of \<open>localStorage\<close> (read with the cast \<open>as Theme | null\<close>, so a \<open>Theme\<close> or
  absent); the class list of the root element; \<open>matches\<close> of the media query
  \<open>(prefers-color-scheme: dark)\<close>, the signal of the operating system; and whether
  \<open>handleChange\<close> is registered as a listener of that media query.
\<close>

record theme_world =
  theme :: Theme
  stored_theme :: "Theme option"
  classList :: "jsstring list"
  prefers_dark :: bool
  listening :: bool

text \<open>The first effect: store the preference, clear both classes, add the resolved one.\<close>

definition apply_effect :: "theme_world \<Rightarrow> theme_world" where
  "apply_effect w =
     (let root_classes = classList_remove [str ''light'', str ''dark''] (classList w)
      in w\<lparr>stored_theme := Some (theme w),
            classList :=
              (if theme w = system
               then classList_add (if prefers_dark w then str ''dark'' else str ''light'') root_classes
               else classList_add (theme_string (theme w)) root_classes)\<rparr>)"

text \<open>The second effect returns at once unless the theme is \<open>system\<close>; otherwise it
  registers \<open>handleChange\<close>. Its cleanup, which exists only when it registered, removes
  the listener; \<open>prev\<close> is the theme of the render whose effect is cleaned up.\<close>

definition listen_effect :: "theme_world \<Rightarrow> theme_world" where
  "listen_effect w = (if theme w \<noteq> system then w else w\<lparr>listening := True\<rparr>)"

definition listen_cleanup :: "Theme \<Rightarrow> theme_world \<Rightarrow> theme_world" where
  "listen_cleanup prev w = (if prev \<noteq> system then w else w\<lparr>listening := False\<rparr>)"

text \<open>\<open>handleChange(e)\<close>, with \<open>e.matches\<close> as argument.\<close>

definition handleChange :: "bool \<Rightarrow> theme_world \<Rightarrow> theme_world" where
  "handleChange e_matches w =
     w\<lparr>classList :=
         classList_add (if e_matches then str ''dark'' else str ''light'')
           (classList_remove [str ''light'', str ''dark''] (classList w))\<rparr>"

text \<open>
  Mounting the hook: the initial state is the stored value, or \<open>system\<close> when there is
  none (\<open>stored ?? "system"\<close>); then both effects run.
\<close>

definition useTheme_mount :: "Theme option \<Rightarrow> bool \<Rightarrow> jsstring list \<Rightarrow> theme_world" where
  "useTheme_mount stored os_dark root_classes =
     listen_effect (apply_effect
       \<lparr>theme = (case stored of None \<Rightarrow> system | Some t \<Rightarrow> t),
        stored_theme = stored,
        classList = root_classes,
        prefers_dark = os_dark,
        listening = False\<rparr>)"

text \<open>
  \<open>setTheme t\<close>: a state equal to the current one causes no effect to run; otherwise the
  component renders with the new theme, the cleanup of the previous second effect runs,
  and then both effects (their dependency \<open>theme\<close> changed).
\<close>

definition setTheme :: "Theme \<Rightarrow> theme_world \<Rightarrow> theme_world" where
  "setTheme t w =
     (if t = theme w then w
      else listen_effect (apply_effect (listen_cleanup (theme w) (w\<lparr>theme := t\<rparr>))))"

text \<open>The signal of the operating system becomes \<open>b\<close>: \<open>matches\<close> changes and the
  \<open>change\<close> event is delivered to the listener, if one is registered.\<close>

definition media_change :: "bool \<Rightarrow> theme_world \<Rightarrow> theme_world" where
  "media_change b w =
     (let w' = w\<lparr>prefers_dark := b\<rparr>
      in if listening w' then handleChange b w' else w')"

datatype theme_event = SetTheme Theme | MediaChange bool

fun theme_step :: "theme_event \<Rightarrow> theme_world \<Rightarrow> theme_world" where
  "theme_step (SetTheme t) w = setTheme t w"
| "theme_step (MediaChange b) w = media_change b w"

definition theme_run :: "theme_world \<Rightarrow> theme_event list \<Rightarrow> theme_world" where
  "theme_run w evs = fold theme_step evs w"

text \<open>The visual mode that the class list of the root element shows: \<open>dark\<close> or \<open>light\<close>
  when exactly that class of the two is present.\<close>

definition applied_mode :: "theme_world \<Rightarrow> Theme option" where
  "applied_mode w =
     (if str ''dark'' \<in> set (classList w) \<and> str ''light'' \<notin> set (classList w) then Some dark
      else if str ''light'' \<in> set (classList w) \<and> str ''dark'' \<notin> set (classList w) then Some light
      else None)"

text \<open>What holds of every world the hook reaches: the listener is registered exactly
  while the theme is \<open>system\<close>, and the class list shows the resolved mode.\<close>

definition theme_inv :: "theme_world \<Rightarrow> bool" where
  "theme_inv w =
     ((listening w = (theme w = system)) \<and>
      applied_mode w =
        Some (if theme w = system then (if prefers_dark w then dark else light) else theme w))"

section \<open>JSON text (\<open>JSON.stringify\<close> and \<open>JSON.parse\<close>)\<close>

text \<open>
  The registry stores \<open>JSON.stringify(files)\<close> and reads it back with \<open>JSON.parse\<close>. Both
  are functions of the platform (ECMA-262, clause "The JSON Object"); they are modelled
  here on code units. \<open>JSON.parse\<close> is modelled for every text; a number is kept as the
  exact value of its literal (a rational), which is the JavaScript number for every
  integer that a timestamp can be; rounding of other literals to a double, and the sign
  of zero, are not modelled. \<open>JSON.stringify\<close> is modelled at the type of its one argument
  in the source, \<open>FileItem[]\<close>.
\<close>

datatype json =
    JNull
  | JBool bool
  | JNumber rat
  | JString jsstring
  | JArray "json list"
  | JObject "(jsstring \<times> json) list"

subsection \<open>\<open>JSON.stringify\<close> of a \<open>FileItem[]\<close>\<close>

definition hex_digit :: "nat \<Rightarrow> jschar" where
  \<comment> \<open>lower-case hexadecimal digit, for \<open>n < 16\<close>\<close>
  "hex_digit n = (if n < 10 then of_nat (48 + n) else of_nat (87 + n))"

definition UnicodeEscape :: "jschar \<Rightarrow> jsstring" where
  \<comment> \<open>\<open>\uXXXX\<close>\<close>
  "UnicodeEscape c =
     [0x5C, 0x75, hex_digit (unat c div 4096), hex_digit (unat c div 256 mod 16),
      hex_digit (unat c div 16 mod 16), hex_digit (unat c mod 16)]"

definition is_leading_surrogate :: "jschar \<Rightarrow> bool" where
  "is_leading_surrogate c = (0xD800 \<le> c \<and> c \<le> 0xDBFF)"

definition is_trailing_surrogate :: "jschar \<Rightarrow> bool" where
  "is_trailing_surrogate c = (0xDC00 \<le> c \<and> c \<le> 0xDFFF)"

text \<open>
  One code point of \<open>QuoteJSONString\<close> that is a single code unit: the two-character
  escapes of the table, \<open>\uXXXX\<close> for the other control characters and for a surrogate
  (here always a lone one), the code unit itself otherwise.
\<close>

definition quote_unit :: "jschar \<Rightarrow> jsstring" where
  "quote_unit c =
     (if c = 0x08 then [0x5C, 0x62]
      else if c = 0x09 then [0x5C, 0x74]
      else if c = 0x0A then [0x5C, 0x6E]
      else if c = 0x0C then [0x5C, 0x66]
      else if c = 0x0D then [0x5C, 0x72]
      else if c = 0x22 then [0x5C, 0x22]
      else if c = 0x5C then [0x5C, 0x5C]
      else if c < 0x20 \<or> is_leading_surrogate c \<or> is_trailing_surrogate c then UnicodeEscape c
      else [c])"

text \<open>The code points of a string in turn: a leading surrogate followed by a trailing
  one is one code point above \<open>0xFFFF\<close> and is copied; anything else is a code unit.\<close>

fun quote_body :: "jsstring \<Rightarrow> jsstring" where
  "quote_body [] = []"
| "quote_body [c] = quote_unit c"
| "quote_body (c # d # cs) =
     (if is_leading_surrogate c \<and> is_trailing_surrogate d then c # d # quote_body cs
      else quote_unit c @ quote_body (d # cs))"

definition QuoteJSONString :: "jsstring \<Rightarrow> jsstring" where
  "QuoteJSONString s = [0x22] @ quote_body s @ [0x22]"

text \<open>\<open>Number::toString\<close> of an integer (below \<open>10^21\<close> in magnitude): decimal digits,
  with a minus sign when negative.\<close>

fun nat_digits :: "nat \<Rightarrow> jsstring" where
  "nat_digits n = (if n < 10 then [of_nat (48 + n)] else nat_digits (n div 10) @ [of_nat (48 + n mod 10)])"

declare nat_digits.simps [simp del]

definition int_to_string :: "int \<Rightarrow> jsstring" where
  "int_to_string n = (if n < 0 then 0x2D # nat_digits (nat (- n)) else nat_digits (nat n))"

text \<open>\<open>SerializeJSONObject\<close> of a \<open>FileItem\<close>: its properties in the order in which
  \<open>createFile\<close> creates them (the spread in \<open>updateFile\<close> keeps that order).\<close>

definition stringify_FileItem :: "FileItem \<Rightarrow> jsstring" where
  "stringify_FileItem f =
     [0x7B] @ QuoteJSONString (str ''id'') @ [0x3A] @ QuoteJSONString (id_file f) @
     [0x2C] @ QuoteJSONString (str ''name'') @ [0x3A] @ QuoteJSONString (name f) @
     [0x2C] @ QuoteJSONString (str ''content'') @ [0x3A] @ QuoteJSONString (content f) @
     [0x2C] @ QuoteJSONString (str ''createdAt'') @ [0x3A] @ int_to_string (createdAt f) @
     [0x2C] @ QuoteJSONString (str ''updatedAt'') @ [0x3A] @ int_to_string (updatedAt f) @
     [0x7D]"

text \<open>\<open>SerializeJSONArray\<close>: the elements separated by commas, in brackets.\<close>

fun join_comma :: "jsstring list \<Rightarrow> jsstring" where
  "join_comma [] = []"
| "join_comma [x] = x"
| "join_comma (x # y # ys) = x @ [0x2C] @ join_comma (y # ys)"

definition JSON_stringify :: "FileItem list \<Rightarrow> jsstring" where
  "JSON_stringify files = [0x5B] @ join_comma (map stringify_FileItem files) @ [0x5D]"

subsection \<open>\<open>JSON.parse\<close>\<close>

definition is_ws :: "jschar \<Rightarrow> bool" where
  "is_ws c = (c = 0x20 \<or> c = 0x09 \<or> c = 0x0A \<or> c = 0x0D)"

definition skip_ws :: "jsstring \<Rightarrow> jsstring" where
  "skip_ws s = dropWhile is_ws s"

definition is_digit :: "jschar \<Rightarrow> bool" where
  "is_digit c = (0x30 \<le> c \<and> c \<le> 0x39)"

definition digit_val :: "jschar \<Rightarrow> nat" where
  "digit_val c = unat c - 48"

definition hex_val :: "jschar \<Rightarrow> nat option" where
  "hex_val c =
     (if 0x30 \<le> c \<and> c \<le> 0x39 then Some (unat c - 48)
      else if 0x61 \<le> c \<and> c \<le> 0x66 then Some (unat c - 87)
      else if 0x41 \<le> c \<and> c \<le> 0x46 then Some (unat c - 55)
      else None)"

definition hex4 :: "jschar \<Rightarrow> jschar \<Rightarrow> jschar \<Rightarrow> jschar \<Rightarrow> jschar option" where
  "hex4 a b c d =
     (case (hex_val a, hex_val b, hex_val c, hex_val d) of
        (Some h3, Some h2, Some h1, Some h0) \<Rightarrow> Some (of_nat (((h3 * 16 + h2) * 16 + h1) * 16 + h0))
      | _ \<Rightarrow> None)"

definition simple_escape :: "jschar \<Rightarrow> jschar option" where
  "simple_escape e =
     (if e = 0x22 then Some 0x22
      else if e = 0x5C then Some 0x5C
      else if e = 0x2F then Some 0x2F
      else if e = 0x62 then Some 0x08
      else if e = 0x66 then Some 0x0C
      else if e = 0x6E then Some 0x0A
      else if e = 0x72 then Some 0x0D
      else if e = 0x74 then Some 0x09
      else None)"

text \<open>The characters of a string after its opening quote, up to the closing quote: the
  string and the text after it. A control character, a bad escape or the end of the text
  is a syntax error (\<open>None\<close>).\<close>

fun parse_chars :: "jsstring \<Rightarrow> (jsstring \<times> jsstring) option" where
  "parse_chars [] = None"
| "parse_chars (c # cs) =
     (if c = 0x22 then Some ([], cs)
      else if c = 0x5C then
        (case cs of
           [] \<Rightarrow> None
         | e # r \<Rightarrow>
             if e = 0x75 then
               (case r of
                  a # b # c # d # r' \<Rightarrow>
                    (case hex4 a b c d of
                       None \<Rightarrow> None
                     | Some u \<Rightarrow> map_option (apfst ((#) u)) (parse_chars r'))
                | _ \<Rightarrow> None)
             else
               (case simple_escape e of
                  None \<Rightarrow> None
                | Some u \<Rightarrow> map_option (apfst ((#) u)) (parse_chars r)))
      else if c < 0x20 then None
      else map_option (apfst ((#) c)) (parse_chars cs))"

text \<open>Numbers: \<open>-? (0 | [1-9][0-9]*) (. [0-9]+)? ([eE] [+-]? [0-9]+)?\<close>.\<close>

definition digits_val :: "jsstring \<Rightarrow> nat" where
  "digits_val ds = foldl (\<lambda>a c. 10 * a + digit_val c) 0 ds"

definition parse_int_part :: "jsstring \<Rightarrow> (jsstring \<times> jsstring) option" where
  "parse_int_part s =
     (case s of
        [] \<Rightarrow> None
      | c # cs \<Rightarrow>
          if c = 0x30 then Some ([c], cs)
          else if is_digit c then Some (takeWhile is_digit s, dropWhile is_digit s)
          else None)"

definition parse_frac :: "jsstring \<Rightarrow> (jsstring \<times> jsstring) option" where
  "parse_frac s =
     (case s of
        [] \<Rightarrow> Some ([], s)
      | c # cs \<Rightarrow>
          if c = 0x2E then
            (if takeWhile is_digit cs = [] then None
             else Some (takeWhile is_digit cs, dropWhile is_digit cs))
          else Some ([], s))"

definition parse_sign :: "jsstring \<Rightarrow> bool \<times> jsstring" where
  \<comment> \<open>the optional sign of an exponent\<close>
  "parse_sign s =
     (case s of
        [] \<Rightarrow> (False, s)
      | c # cs \<Rightarrow> if c = 0x2D then (True, cs) else if c = 0x2B then (False, cs) else (False, s))"

definition parse_exp :: "jsstring \<Rightarrow> (int \<times> jsstring) option" where
  "parse_exp s =
     (case s of
        [] \<Rightarrow> Some (0, s)
      | c # cs \<Rightarrow>
          if c = 0x65 \<or> c = 0x45 then
            (case parse_sign cs of
               (neg, ds) \<Rightarrow>
                 if takeWhile is_digit ds = [] then None
                 else Some ((if neg then - 1 else 1) * int (digits_val (takeWhile is_digit ds)),
                            dropWhile is_digit ds))
          else Some (0, s))"

definition pow10 :: "int \<Rightarrow> rat" where
  "pow10 k = (if 0 \<le> k then 10 ^ nat k else 1 / 10 ^ nat (- k))"

definition parse_number :: "jsstring \<Rightarrow> (rat \<times> jsstring) option" where
  "parse_number s =
     (case (case s of [] \<Rightarrow> (False, s) | c # cs \<Rightarrow> if c = 0x2D then (True, cs) else (False, s)) of
        (neg, s1) \<Rightarrow>
          (case parse_int_part s1 of
             None \<Rightarrow> None
           | Some (ip, s2) \<Rightarrow>
               (case parse_frac s2 of
                  None \<Rightarrow> None
                | Some (fp, s3) \<Rightarrow>
                    (case parse_exp s3 of
                       None \<Rightarrow> None
                     | Some (e, s4) \<Rightarrow>
                         Some ((if neg then - 1 else 1) * of_nat (digits_val (ip @ fp))
                                 * pow10 (e - int (length fp)),
                               s4)))))"

text \<open>
  A value, at its first character. \<open>parse_elements\<close> reads the elements of an array after
  the opening bracket of a non-empty array, \<open>parse_members\<close> the members of an object;
  both collect what they have read in their first argument. Where a call follows the
  result of another call, the test that the remaining text got shorter makes the
  recursion well-founded; it never fails (see \<open>parse_value_shorter\<close>).
\<close>

function parse_value :: "jsstring \<Rightarrow> (json \<times> jsstring) option"
  and parse_elements :: "json list \<Rightarrow> jsstring \<Rightarrow> (json \<times> jsstring) option"
  and parse_members :: "(jsstring \<times> json) list \<Rightarrow> jsstring \<Rightarrow> (json \<times> jsstring) option"
where
  "parse_value [] = None"
| "parse_value (c # cs) =
     (if c = 0x5B then
        (case skip_ws cs of
           [] \<Rightarrow> None
         | d # r \<Rightarrow> if d = 0x5D then Some (JArray [], r) else parse_elements [] cs)
      else if c = 0x7B then
        (case skip_ws cs of
           [] \<Rightarrow> None
         | d # r \<Rightarrow> if d = 0x7D then Some (JObject [], r) else parse_members [] cs)
      else if c = 0x22 then map_option (apfst JString) (parse_chars cs)
      else if c = 0x2D \<or> is_digit c then map_option (apfst JNumber) (parse_number (c # cs))
      else if take 4 (c # cs) = str ''true'' then Some (JBool True, drop 4 (c # cs))
      else if take 5 (c # cs) = str ''false'' then Some (JBool False, drop 5 (c # cs))
      else if take 4 (c # cs) = str ''null'' then Some (JNull, drop 4 (c # cs))
      else None)"
| "parse_elements acc s =
     (case parse_value (skip_ws s) of
        None \<Rightarrow> None
      | Some (v, r) \<Rightarrow>
          (case skip_ws r of
             [] \<Rightarrow> None
           | d # r' \<Rightarrow>
               if d = 0x2C then
                 (if length r' < length s then parse_elements (acc @ [v]) r' else None)
               else if d = 0x5D then Some (JArray (acc @ [v]), r')
               else None))"
| "parse_members acc s =
     (case skip_ws s of
        [] \<Rightarrow> None
      | q # s1 \<Rightarrow>
          if q = 0x22 then
            (case parse_chars s1 of
               None \<Rightarrow> None
             | Some (k, s2) \<Rightarrow>
                 (case skip_ws s2 of
                    [] \<Rightarrow> None
                  | colon # s3 \<Rightarrow>
                      if colon = 0x3A then
                        (if length (skip_ws s3) < length s then
                           (case parse_value (skip_ws s3) of
                              None \<Rightarrow> None
                            | Some (v, s4) \<Rightarrow>
                                (case skip_ws s4 of
                                   [] \<Rightarrow> None
                                 | d # s5 \<Rightarrow>
                                     if d = 0x2C then
                                       (if length s5 < length s
                                        then parse_members (acc @ [(k, v)]) s5 else None)
                                     else if d = 0x7D then Some (JObject (acc @ [(k, v)]), s5)
                                     else None))
                         else None)
                      else None))
          else None)"
  by pat_completeness auto
termination
  by (relation "measure (\<lambda>x. case x of
         Inl s \<Rightarrow> 2 * length s
       | Inr (Inl (acc, s)) \<Rightarrow> 2 * length s + 1
       | Inr (Inr (acc, s)) \<Rightarrow> 2 * length s + 1)")
     (auto simp: skip_ws_def less_Suc_eq_le length_dropWhile_le)

declare parse_elements.simps [simp del] parse_members.simps [simp del]

text \<open>\<open>JSON.parse(text)\<close>: one value, with white space around it and nothing else; \<open>None\<close>
  is the \<open>SyntaxError\<close> it throws.\<close>

definition JSON_parse :: "jsstring \<Rightarrow> json option" where
  "JSON_parse s =
     (case parse_value (skip_ws s) of
        None \<Rightarrow> None
      | Some (v, r) \<Rightarrow> if skip_ws r = [] then Some v else None)"

section \<open>Persistence of the registry\<close>

text \<open>\<open>localStorage\<close>: a map from keys to strings; \<open>getItem\<close> of a missing key is \<open>null\<close>
  (\<open>None\<close>).\<close>

type_synonym storage = "jsstring \<rightharpoonup> jsstring"

definition STORAGE_KEY :: jsstring where
  "STORAGE_KEY = str ''markdown-files''"

text \<open>
  The initial state of \<open>useFiles\<close>. \<open>if (stored)\<close> holds for a string that is present and
  not empty; the \<open>catch\<close> covers the \<open>SyntaxError\<close> of \<open>JSON.parse\<close>; the cast
  \<open>as FileItem[]\<close> checks nothing, so the state is whatever value the text denotes.
\<close>

definition useFiles_init :: "storage \<Rightarrow> json" where
  "useFiles_init st =
     (case st STORAGE_KEY of
        None \<Rightarrow> JArray []
      | Some stored \<Rightarrow>
          if stored \<noteq> [] then
            (case JSON_parse stored of Some v \<Rightarrow> v | None \<Rightarrow> JArray [])
          else JArray [])"

text \<open>The effect that runs when \<open>files\<close> has changed:
  \<open>localStorage.setItem(STORAGE_KEY, JSON.stringify(files))\<close>.\<close>

definition persist :: "FileItem list \<Rightarrow> storage \<Rightarrow> storage" where
  "persist files st = st(STORAGE_KEY \<mapsto> JSON_stringify files)"

text \<open>
  The JSON value that is a \<open>FileItem\<close>, and reading a JSON value at the type
  \<open>FileItem[]\<close>: an array of objects whose properties \<open>id\<close>, \<open>name\<close> and \<open>content\<close> are
  strings and whose \<open>createdAt\<close> and \<open>updatedAt\<close> are integers. A property is looked up as
  JavaScript does after \<open>JSON.parse\<close>: of several members with one key the last counts.
\<close>

definition json_of_FileItem :: "FileItem \<Rightarrow> json" where
  "json_of_FileItem f =
     JObject [(str ''id'', JString (id_file f)),
              (str ''name'', JString (name f)),
              (str ''content'', JString (content f)),
              (str ''createdAt'', JNumber (of_int (createdAt f))),
              (str ''updatedAt'', JNumber (of_int (updatedAt f)))]"

definition json_of_files :: "FileItem list \<Rightarrow> json" where
  "json_of_files files = JArray (map json_of_FileItem files)"

definition property :: "(jsstring \<times> json) list \<Rightarrow> jsstring \<Rightarrow> json option" where
  "property members k = map_of (rev members) k"

definition string_property :: "(jsstring \<times> json) list \<Rightarrow> jsstring \<Rightarrow> jsstring option" where
  "string_property members k =
     (case property members k of Some (JString s) \<Rightarrow> Some s | _ \<Rightarrow> None)"

definition integer_property :: "(jsstring \<times> json) list \<Rightarrow> jsstring \<Rightarrow> int option" where
  "integer_property members k =
     (case property members k of
        Some (JNumber r) \<Rightarrow> if of_int \<lfloor>r\<rfloor> = r then Some \<lfloor>r\<rfloor> else None
      | _ \<Rightarrow> None)"

definition as_FileItem :: "json \<Rightarrow> FileItem option" where
  "as_FileItem j =
     (case j of
        JObject ms \<Rightarrow>
          (case (string_property ms (str ''id''), string_property ms (str ''name''),
                 string_property ms (str ''content''), integer_property ms (str ''createdAt''),
                 integer_property ms (str ''updatedAt'')) of
             (Some i, Some n, Some c, Some ca, Some ua) \<Rightarrow>
               Some \<lparr>id_file = i, name = n, content = c, createdAt = ca, updatedAt = ua\<rparr>
           | _ \<Rightarrow> None)
      | _ \<Rightarrow> None)"

fun all_some :: "'a option list \<Rightarrow> 'a list option" where
  "all_some [] = Some []"
| "all_some (None # xs) = None"
| "all_some (Some x # xs) = map_option ((#) x) (all_some xs)"

definition as_FileItems :: "json \<Rightarrow> FileItem list option" where
  "as_FileItems j = (case j of JArray xs \<Rightarrow> all_some (map as_FileItem xs) | _ \<Rightarrow> None)"

text \<open>A store whose documents key holds the text \<open>{}\<close>, and one that holds \<open>null\<close>.\<close>

definition store_with_object :: storage where
  "store_with_object = Map.empty(STORAGE_KEY \<mapsto> str ''{}'')"

definition store_with_null :: storage where
  "store_with_null = Map.empty(STORAGE_KEY \<mapsto> str ''null'')"

text \<open>What follows a number in a text so that the number ends there: the end of the
  text, or a character that cannot continue a number.\<close>

definition ends_number :: "jsstring \<Rightarrow> bool" where
  "ends_number rest =
     (case rest of
        [] \<Rightarrow> True
      | c # cs \<Rightarrow> \<not> is_digit c \<and> c \<noteq> 0x2E \<and> c \<noteq> 0x65 \<and> c \<noteq> 0x45)"

section \<open>Properties of the file registry\<close>

lemma getFile_deleteFile: "getFile (deleteFile i fs) i = None"
  by (induction fs) (simp_all add: getFile_def deleteFile_def)

lemma deleteFile_absent: "i \<notin> id_file ` set fs \<Longrightarrow> deleteFile i fs = fs"
  by (induction fs) (auto simp: deleteFile_def)

lemma updateFile_absent: "i \<notin> id_file ` set fs \<Longrightarrow> updateFile i u now fs = fs"
  by (induction fs) (auto simp: updateFile_def)

text \<open>
  C3. After \<open>deleteFile i\<close>, \<open>getFile\<close> of \<open>i\<close> is absent, for every collection and
  every id. When no document of the collection has id \<open>i\<close>, \<open>deleteFile i\<close> and
  \<open>updateFile i\<close> (with any fields, at any time) return the collection unchanged.
  Both operations are total functions with no error result: they have no failing path.
\<close>

theorem C3_delete_then_get_absent_and_unknown_id_noop:
  "getFile (deleteFile i fs) i = None \<and>
   (i \<notin> id_file ` set fs \<longrightarrow> deleteFile i fs = fs \<and> updateFile i u now fs = fs)"
  by (simp add: getFile_deleteFile deleteFile_absent updateFile_absent)

theorem C3_witness:
  "getFile (deleteFile (str ''a'') [doc_a, doc_b]) (str ''a'') = None \<and>
   str ''c'' \<notin> id_file ` set [doc_a, doc_b] \<and>
   deleteFile (str ''c'') [doc_a, doc_b] = [doc_a, doc_b] \<and>
   updateFile (str ''c'') (content_only (str ''x'')) 3000 [doc_a, doc_b] = [doc_a, doc_b]"
proof -
  have absent: "str ''c'' \<notin> id_file ` set [doc_a, doc_b]"
    by (simp add: doc_a_def doc_b_def str_def)
  from C3_delete_then_get_absent_and_unknown_id_noop
         [of "str ''a''" "[doc_a, doc_b]" "content_only (str ''x'')" 3000]
  have "getFile (deleteFile (str ''a'') [doc_a, doc_b]) (str ''a'') = None"
    by simp
  moreover from absent
    C3_delete_then_get_absent_and_unknown_id_noop
      [of "str ''c''" "[doc_a, doc_b]" "content_only (str ''x'')" 3000]
  have "deleteFile (str ''c'') [doc_a, doc_b] = [doc_a, doc_b] \<and>
        updateFile (str ''c'') (content_only (str ''x'')) 3000 [doc_a, doc_b] = [doc_a, doc_b]"
    by blast
  ultimately show ?thesis using absent by blast
qed







lemma updateFile_length: "length (updateFile i u now fs) = length fs"
  by (simp add: updateFile_def)

lemma updateFile_nth:
  "k < length fs \<Longrightarrow>
   updateFile i u now fs ! k = (if id_file (fs ! k) = i then spread (fs ! k) u now else fs ! k)"
  by (simp add: updateFile_def)

lemma spread_content_only:
  "spread f (content_only X) now = f\<lparr>content := X, updatedAt := now\<rparr>"
  by (simp add: spread_def content_only_def)

text \<open>
  C2, as stated, fails: \<open>updatedAt\<close> becomes the reading of \<open>Date.now()\<close>, whatever the
  previous value was. With a document last updated at 2000 and a clock reading of 1500,
  the new \<open>updatedAt\<close> is 1500, below the previous one.
\<close>

theorem C2_counterexample:
  "getFile [doc_a] (str ''a'') = Some doc_a \<and>
   updatedAt doc_a = 2000 \<and>
   getFile (updateFile (str ''a'') (content_only (str ''x'')) 1500 [doc_a]) (str ''a'')
     = Some (doc_a\<lparr>content := str ''x'', updatedAt := 1500\<rparr>) \<and>
   \<not> updatedAt doc_a \<le> updatedAt (doc_a\<lparr>content := str ''x'', updatedAt := 1500\<rparr>)"
  by (simp add: getFile_def updateFile_def spread_content_only doc_a_def)

text \<open>
  C2, amended. \<open>updateFile i {content: X}\<close> keeps the length of the collection; at every
  position, a document whose id is \<open>i\<close> keeps its id, name and \<open>createdAt\<close>, gets content
  \<open>X\<close> and gets \<open>updatedAt\<close> equal to the clock reading \<open>now\<close> (which is at least the
  previous \<open>updatedAt\<close> whenever the clock reading is); every other document is
  untouched.
\<close>

theorem C2_update_content:
  "length (updateFile i (content_only X) now fs) = length fs \<and>
   (\<forall>k < length fs.
      (id_file (fs ! k) = i \<longrightarrow>
         updateFile i (content_only X) now fs ! k = (fs ! k)\<lparr>content := X, updatedAt := now\<rparr> \<and>
         id_file (updateFile i (content_only X) now fs ! k) = i \<and>
         name (updateFile i (content_only X) now fs ! k) = name (fs ! k) \<and>
         createdAt (updateFile i (content_only X) now fs ! k) = createdAt (fs ! k) \<and>
         content (updateFile i (content_only X) now fs ! k) = X \<and>
         updatedAt (updateFile i (content_only X) now fs ! k) = now \<and>
         (updatedAt (fs ! k) \<le> now \<longrightarrow>
            updatedAt (fs ! k) \<le> updatedAt (updateFile i (content_only X) now fs ! k))) \<and>
      (id_file (fs ! k) \<noteq> i \<longrightarrow> updateFile i (content_only X) now fs ! k = fs ! k))"
  by (simp add: updateFile_length updateFile_nth spread_content_only)

theorem C2_witness:
  "0 < length [doc_a, doc_b] \<and> id_file ([doc_a, doc_b] ! 0) = str ''a'' \<and>
   updatedAt ([doc_a, doc_b] ! 0) \<le> 2500 \<and>
   updateFile (str ''a'') (content_only (str ''x'')) 2500 [doc_a, doc_b] ! 0
     = doc_a\<lparr>content := str ''x'', updatedAt := 2500\<rparr> \<and>
   updatedAt ([doc_a, doc_b] ! 0)
     \<le> updatedAt (updateFile (str ''a'') (content_only (str ''x'')) 2500 [doc_a, doc_b] ! 0) \<and>
   1 < length [doc_a, doc_b] \<and> id_file ([doc_a, doc_b] ! 1) \<noteq> str ''a'' \<and>
   updateFile (str ''a'') (content_only (str ''x'')) 2500 [doc_a, doc_b] ! 1 = doc_b"
proof -
  have h0: "0 < length [doc_a, doc_b]" and h1: "1 < length [doc_a, doc_b]" by simp_all
  have ida: "id_file ([doc_a, doc_b] ! 0) = str ''a''" by (simp add: doc_a_def)
  have idb: "id_file ([doc_a, doc_b] ! 1) \<noteq> str ''a''" by (simp add: doc_b_def str_def)
  have le: "updatedAt ([doc_a, doc_b] ! 0) \<le> 2500" by (simp add: doc_a_def)
  note inst = C2_update_content [of "str ''a''" "str ''x''" 2500 "[doc_a, doc_b]"]
  from inst h0 ida le
  have a: "updateFile (str ''a'') (content_only (str ''x'')) 2500 [doc_a, doc_b] ! 0
             = doc_a\<lparr>content := str ''x'', updatedAt := 2500\<rparr> \<and>
           updatedAt ([doc_a, doc_b] ! 0)
             \<le> updatedAt (updateFile (str ''a'') (content_only (str ''x'')) 2500 [doc_a, doc_b] ! 0)"
    by (metis nth_Cons_0)
  from inst h1 idb
  have b: "updateFile (str ''a'') (content_only (str ''x'')) 2500 [doc_a, doc_b] ! 1 = doc_b"
    by (metis One_nat_def nth_Cons_0 nth_Cons_Suc)
  from h0 h1 ida idb le a b show ?thesis by blast
qed








text \<open>
  C10. \<open>updateFile\<close> keeps the number of documents, and position by position the result
  holds the document of the input at that position, either as it was or merged with the
  update; \<open>deleteFile\<close> yields a subsequence of the input. Neither reorders.
\<close>

theorem C10_order_preserved:
  "length (updateFile i u now fs) = length fs \<and>
   list_all2 (\<lambda>f f'. f' = (if id_file f = i then spread f u now else f)) fs (updateFile i u now fs) \<and>
   subseq (deleteFile i fs) fs"
  by (simp add: updateFile_def deleteFile_def list_all2_map2 list_all2_same)

section \<open>Properties of the notification queue\<close>

lemma timeout_callback_fields [simp]:
  "clock (timeout_callback i w) = clock w"
  "timers (timeout_callback i w) = timers w"
  "toasts (timeout_callback i w) = filter (\<lambda>t. id_toast t \<noteq> i) (toasts w)"
  by (simp_all add: timeout_callback_def)

lemma fold_callbacks_clock [simp]:
  "clock (fold (\<lambda>(d, i). timeout_callback i) due w) = clock w"
  by (induction due arbitrary: w) (simp_all split: prod.splits)

lemma fold_callbacks_timers [simp]:
  "timers (fold (\<lambda>(d, i). timeout_callback i) due w) = timers w"
  by (induction due arbitrary: w) (simp_all split: prod.splits)

lemma fold_callbacks_subset:
  "set (toasts (fold (\<lambda>(d, i). timeout_callback i) due w)) \<subseteq> set (toasts w)"
proof (induction due arbitrary: w)
  case Nil
  then show ?case by simp
next
  case (Cons x due)
  obtain d j where x: "x = (d, j)" by (cases x)
  have "set (toasts (fold (\<lambda>(d, i). timeout_callback i) due (timeout_callback j w)))
          \<subseteq> set (toasts (timeout_callback j w))"
    by (rule Cons.IH)
  also have "\<dots> \<subseteq> set (toasts w)" by auto
  finally show ?case using x by simp
qed

lemma fold_callbacks_removes:
  "(d, i) \<in> set due \<Longrightarrow>
   i \<notin> id_toast ` set (toasts (fold (\<lambda>(d, i). timeout_callback i) due w))"
proof (induction due arbitrary: w)
  case Nil
  then show ?case by simp
next
  case (Cons x due)
  obtain d' j where x: "x = (d', j)" by (cases x)
  show ?case
  proof (cases "(d, i) \<in> set due")
    case True
    then show ?thesis using Cons.IH by simp
  next
    case False
    with Cons.prems x have ji: "j = i" by auto
    have "id_toast ` set (toasts (fold (\<lambda>(d, i). timeout_callback i) due (timeout_callback j w)))
            \<subseteq> id_toast ` set (toasts (timeout_callback j w))"
      using fold_callbacks_subset by blast
    moreover have "i \<notin> id_toast ` set (toasts (timeout_callback j w))"
      using ji by auto
    ultimately show ?thesis using x by auto
  qed
qed

lemma elapse_clock: "clock (elapse dt w) = clock w + int dt"
  by (simp add: elapse_def Let_def)

lemma elapse_timers: "timers (elapse dt w) = filter (\<lambda>(d, i). \<not> d \<le> clock w + int dt) (timers w)"
  by (simp add: elapse_def Let_def)

lemma elapse_toasts_subset: "set (toasts (elapse dt w)) \<subseteq> set (toasts w)"
proof -
  have "set (toasts (elapse dt w))
          \<subseteq> set (toasts (w\<lparr>clock := clock w + int dt,
                 timers := filter (\<lambda>(d, i). \<not> d \<le> clock w + int dt) (timers w)\<rparr>))"
    unfolding elapse_def Let_def by (rule fold_callbacks_subset)
  then show ?thesis by simp
qed

lemma elapse_fires:
  "(d, i) \<in> set (timers w) \<Longrightarrow> d \<le> clock w + int dt \<Longrightarrow>
   i \<notin> id_toast ` set (toasts (elapse dt w))"
  unfolding elapse_def Let_def
  by (rule fold_callbacks_removes [where d = d]) simp

lemma expiry_inv_step:
  assumes "expiry_inv i deadline w"
    and "\<not> (case ev of AddToast j ty msg \<Rightarrow> j = i \<and> deadline \<le> clock w | _ \<Rightarrow> False)"
  shows "expiry_inv i deadline (toast_step ev w)"
proof (cases ev)
  case (AddToast j ty msg)
  with assms show ?thesis by (auto simp: expiry_inv_def addToast_def split: if_splits)
next
  case (RemoveToast j)
  with assms show ?thesis by (auto simp: expiry_inv_def removeToast_def split: if_splits)
next
  case (Elapse dt)
  show ?thesis
  proof (cases "clock w < deadline")
    case True
    with assms have t: "(deadline, i) \<in> set (timers w)" by (simp add: expiry_inv_def)
    show ?thesis
    proof (cases "clock w + int dt < deadline")
      case True
      with t show ?thesis by (simp add: Elapse expiry_inv_def elapse_clock elapse_timers)
    next
      case False
      then have "deadline \<le> clock w + int dt" by simp
      from elapse_fires [OF t this] False
      show ?thesis by (simp add: Elapse expiry_inv_def elapse_clock)
    qed
  next
    case False
    with assms have "i \<notin> id_toast ` set (toasts w)" by (simp add: expiry_inv_def)
    with elapse_toasts_subset [of dt w] have "i \<notin> id_toast ` set (toasts (elapse dt w))"
      by blast
    with False show ?thesis by (simp add: Elapse expiry_inv_def elapse_clock)
  qed
qed

lemma expiry_inv_run:
  "expiry_inv i deadline w \<Longrightarrow> \<not> reused_late i deadline w evs \<Longrightarrow>
   expiry_inv i deadline (toast_run w evs)"
proof (induction evs arbitrary: w)
  case Nil
  then show ?case by (simp add: toast_run_def)
next
  case (Cons ev evs)
  from Cons.prems have a: "expiry_inv i deadline (toast_step ev w)"
    by (intro expiry_inv_step) auto
  from Cons.prems have b: "\<not> reused_late i deadline (toast_step ev w) evs" by simp
  from Cons.IH [OF a b] show ?case by (simp add: toast_run_def)
qed

lemma expiry_inv_addToast: "expiry_inv i (clock w + 5000) (addToast i ty msg w)"
  by (simp add: expiry_inv_def addToast_def)

lemma removeToast_absent: "i \<notin> set (toast_ids (removeToast i w))"
  by (auto simp: toast_ids_def removeToast_def)

lemma removeToast_noop: "i \<notin> set (toast_ids w) \<Longrightarrow> removeToast i w = w"
proof -
  assume "i \<notin> set (toast_ids w)"
  then have "filter (\<lambda>t. id_toast t \<noteq> i) (toasts w) = toasts w"
    by (auto simp: toast_ids_def intro: filter_True)
  then show ?thesis by (simp add: removeToast_def)
qed

text \<open>
  C6. A notification enqueued by \<open>addToast\<close> with id \<open>i\<close> when the clock shows \<open>T\<close> is out of
  the queue in every later world whose clock has reached \<open>T + 5000\<close>, whatever was
  enqueued, dismissed or elapsed in between, dismissed or not; toasts are told apart by
  their id only, so the run must not enqueue another notification with the same id at or
  after the deadline. \<open>removeToast j\<close> leaves no toast with id \<open>j\<close> in any world, at any
  time; doing it twice is doing it once; and on a world with no toast of id \<open>j\<close> it
  changes nothing. Time is the logical clock of the timers: a callback runs when the
  clock reaches the time it is due.
\<close>

theorem C6_expiry_and_dismiss:
  "(\<not> reused_late i (clock w + 5000) (addToast i ty msg w) evs \<and>
      clock w + 5000 \<le> clock (toast_run (addToast i ty msg w) evs)
    \<longrightarrow> i \<notin> set (toast_ids (toast_run (addToast i ty msg w) evs))) \<and>
   j \<notin> set (toast_ids (removeToast j w')) \<and>
   removeToast j (removeToast j w') = removeToast j w' \<and>
   (j \<notin> set (toast_ids w') \<longrightarrow> removeToast j w' = w')"
proof -
  have 1: "\<not> reused_late i (clock w + 5000) (addToast i ty msg w) evs \<and>
      clock w + 5000 \<le> clock (toast_run (addToast i ty msg w) evs)
    \<longrightarrow> i \<notin> set (toast_ids (toast_run (addToast i ty msg w) evs))"
  proof
    assume a: "\<not> reused_late i (clock w + 5000) (addToast i ty msg w) evs \<and>
      clock w + 5000 \<le> clock (toast_run (addToast i ty msg w) evs)"
    then have "expiry_inv i (clock w + 5000) (toast_run (addToast i ty msg w) evs)"
      using expiry_inv_run [OF expiry_inv_addToast] by blast
    with a show "i \<notin> set (toast_ids (toast_run (addToast i ty msg w) evs))"
      by (simp add: expiry_inv_def toast_ids_def)
  qed
  have 2: "j \<notin> set (toast_ids (removeToast j w'))" by (rule removeToast_absent)
  have 3: "removeToast j (removeToast j w') = removeToast j w'"
    by (rule removeToast_noop [OF 2])
  have 4: "j \<notin> set (toast_ids w') \<longrightarrow> removeToast j w' = w'"
    by (simp add: removeToast_noop)
  from 1 2 3 4 show ?thesis by blast
qed

theorem C6_witness:
  "\<not> reused_late 1000 (clock empty_queue + 5000)
       (addToast 1000 success (str ''File saved'') empty_queue) sample_events \<and>
   clock empty_queue + 5000
     \<le> clock (toast_run (addToast 1000 success (str ''File saved'') empty_queue) sample_events) \<and>
   1000 \<notin> set (toast_ids
       (toast_run (addToast 1000 success (str ''File saved'') empty_queue) sample_events)) \<and>
   7 \<notin> set (toast_ids empty_queue) \<and>
   removeToast 7 empty_queue = empty_queue"
proof -
  have h1: "\<not> reused_late 1000 (clock empty_queue + 5000)
       (addToast 1000 success (str ''File saved'') empty_queue) sample_events"
    by (simp add: sample_events_def empty_queue_def addToast_def elapse_def timeout_callback_def)
  have h2: "clock empty_queue + 5000
     \<le> clock (toast_run (addToast 1000 success (str ''File saved'') empty_queue) sample_events)"
    by (simp add: sample_events_def empty_queue_def addToast_def elapse_def timeout_callback_def
        toast_run_def)
  have h3: "7 \<notin> set (toast_ids empty_queue)"
    by (simp add: toast_ids_def empty_queue_def)
  from C6_expiry_and_dismiss
         [of 1000 empty_queue success "str ''File saved''" sample_events 7 empty_queue]
       h1 h2 h3
  show ?thesis by blast
qed

text \<open>
  C9 at two uploads that finish within the same millisecond: both calls of \<open>addToast\<close> read
  1000 from \<open>Date.now()\<close>, the queue then holds two toasts with id 1000, and dismissing
  one of them removes both.
\<close>

theorem C9_same_millisecond_same_id:
  "toast_ids (addToast 1000 success (str ''Uploaded b.md'')
                (addToast 1000 success (str ''Uploaded a.md'') empty_queue)) = [1000, 1000] \<and>
   \<not> distinct (toast_ids (addToast 1000 success (str ''Uploaded b.md'')
                (addToast 1000 success (str ''Uploaded a.md'') empty_queue))) \<and>
   toasts (removeToast 1000 (addToast 1000 success (str ''Uploaded b.md'')
                (addToast 1000 success (str ''Uploaded a.md'') empty_queue))) = []"
  by (simp add: toast_ids_def addToast_def empty_queue_def removeToast_def)

section \<open>Properties of the theme resolver\<close>

lemma light_neq_dark: "str ''light'' \<noteq> str ''dark''" "str ''dark'' \<noteq> str ''light''"
  by (simp_all add: str_def)

lemma set_classList_add: "set (classList_add t cl) = insert t (set cl)"
  by (auto simp: classList_add_def)

lemma set_classList_remove: "set (classList_remove ts cl) = set cl - set ts"
  by (auto simp: classList_remove_def)

lemma applied_after_reset:
  "applied_mode (w\<lparr>classList :=
       classList_add (if b then str ''dark'' else str ''light'')
         (classList_remove [str ''light'', str ''dark''] cl)\<rparr>) = Some (if b then dark else light)"
  using light_neq_dark
  by (simp add: applied_mode_def set_classList_add set_classList_remove)

lemma applied_mode_cong:
  "classList w' = classList w \<Longrightarrow> applied_mode w' = applied_mode w"
  by (simp add: applied_mode_def)

lemma applied_mode_prefers [simp]:
  "applied_mode (w\<lparr>prefers_dark := b\<rparr>) = applied_mode w"
  by (simp add: applied_mode_def)

lemma apply_effect_applied:
  "applied_mode (apply_effect w) =
     Some (if theme w = system then (if prefers_dark w then dark else light) else theme w)"
proof (cases "theme w")
  case light
  then show ?thesis
    using applied_after_reset [where b = False and cl = "classList w"]
    by (simp add: apply_effect_def Let_def theme_string_def applied_mode_def)
next
  case dark
  then show ?thesis
    using applied_after_reset [where b = True and cl = "classList w"]
    by (simp add: apply_effect_def Let_def theme_string_def applied_mode_def)
next
  case system
  then show ?thesis
    using applied_after_reset [where b = "prefers_dark w" and cl = "classList w"]
    by (simp add: apply_effect_def Let_def applied_mode_def)
qed

lemma apply_effect_fields [simp]:
  "theme (apply_effect w) = theme w"
  "prefers_dark (apply_effect w) = prefers_dark w"
  "listening (apply_effect w) = listening w"
  by (simp_all add: apply_effect_def Let_def)

lemma listen_effect_fields [simp]:
  "theme (listen_effect w) = theme w"
  "prefers_dark (listen_effect w) = prefers_dark w"
  "classList (listen_effect w) = classList w"
  by (simp_all add: listen_effect_def)

lemma theme_inv_after_effects:
  "listening w = False \<Longrightarrow> theme_inv (listen_effect (apply_effect w))"
  unfolding theme_inv_def
  by (simp add: applied_mode_cong [of "listen_effect (apply_effect w)" "apply_effect w"]
      apply_effect_applied) (simp add: listen_effect_def)

lemma theme_inv_mount: "theme_inv (useTheme_mount stored os_dark root_classes)"
  unfolding useTheme_mount_def by (rule theme_inv_after_effects) simp

lemma theme_inv_setTheme: "theme_inv w \<Longrightarrow> theme_inv (setTheme t w)"
proof (cases "t = theme w")
  case True
  assume "theme_inv w"
  with True show ?thesis by (simp add: setTheme_def)
next
  case False
  assume "theme_inv w"
  then have "listening (listen_cleanup (theme w) (w\<lparr>theme := t\<rparr>)) = False"
    by (simp add: theme_inv_def listen_cleanup_def)
  from theme_inv_after_effects [OF this] False show ?thesis by (simp add: setTheme_def)
qed

lemma media_change_system:
  assumes "theme_inv w" "theme w = system"
  shows "media_change b w = handleChange b (w\<lparr>prefers_dark := b\<rparr>)"
  using assms by (simp add: media_change_def Let_def theme_inv_def)

lemma media_change_fixed:
  assumes "theme_inv w" "theme w \<noteq> system"
  shows "media_change b w = w\<lparr>prefers_dark := b\<rparr>"
  using assms by (simp add: media_change_def Let_def theme_inv_def)

lemma theme_inv_media_change: "theme_inv w \<Longrightarrow> theme_inv (media_change b w)"
proof (cases "theme w = system")
  case True
  assume i: "theme_inv w"
  from media_change_system [OF i True, of b] i True show ?thesis
    by (simp add: theme_inv_def handleChange_def applied_after_reset)
next
  case False
  assume i: "theme_inv w"
  from media_change_fixed [OF i False, of b] i False show ?thesis
    by (simp add: theme_inv_def)
qed

lemma theme_inv_run: "theme_inv w \<Longrightarrow> theme_inv (theme_run w evs)"
proof (induction evs arbitrary: w)
  case Nil
  then show ?case by (simp add: theme_run_def)
next
  case (Cons ev evs)
  have "theme_inv (theme_step ev w)"
    using Cons.prems by (cases ev) (simp_all add: theme_inv_setTheme theme_inv_media_change)
  from Cons.IH [OF this] show ?case by (simp add: theme_run_def)
qed

text \<open>
  C5. In every world \<open>w\<close> that the hook reaches from its mount by calls of \<open>setTheme\<close> and
  changes of the OS signal, the class list shows the resolved mode: the OS signal when the
  preference is \<open>system\<close>, the preference itself when it is \<open>light\<close> or \<open>dark\<close>. While the
  preference is \<open>system\<close>, a change of the OS signal to \<open>b\<close> alone (no call of \<open>setTheme\<close>;
  the preference and the stored value stay) makes the class list show \<open>b\<close>. While the
  preference is \<open>light\<close> or \<open>dark\<close>, a change of the OS signal leaves the class list as it
  is.
\<close>

theorem C5_theme_resolution:
  assumes reached: "w = theme_run (useTheme_mount stored os_dark root_classes) evs"
  shows "applied_mode w =
           Some (if theme w = system then (if prefers_dark w then dark else light) else theme w) \<and>
         (theme w = system \<longrightarrow>
            theme (media_change b w) = system \<and>
            stored_theme (media_change b w) = stored_theme w \<and>
            prefers_dark (media_change b w) = b \<and>
            applied_mode (media_change b w) = Some (if b then dark else light)) \<and>
         (theme w \<noteq> system \<longrightarrow>
            theme (media_change b w) = theme w \<and>
            classList (media_change b w) = classList w \<and>
            applied_mode (media_change b w) = Some (theme w))"
proof -
  have i: "theme_inv w" unfolding reached by (rule theme_inv_run [OF theme_inv_mount])
  have 1: "applied_mode w =
           Some (if theme w = system then (if prefers_dark w then dark else light) else theme w)"
    using i by (simp add: theme_inv_def)
  have 2: "theme w = system \<longrightarrow>
            theme (media_change b w) = system \<and>
            stored_theme (media_change b w) = stored_theme w \<and>
            prefers_dark (media_change b w) = b \<and>
            applied_mode (media_change b w) = Some (if b then dark else light)"
  proof
    assume s: "theme w = system"
    from media_change_system [OF i s, of b] s
    show "theme (media_change b w) = system \<and>
            stored_theme (media_change b w) = stored_theme w \<and>
            prefers_dark (media_change b w) = b \<and>
            applied_mode (media_change b w) = Some (if b then dark else light)"
      by (simp add: handleChange_def applied_after_reset)
  qed
  have 3: "theme w \<noteq> system \<longrightarrow>
            theme (media_change b w) = theme w \<and>
            classList (media_change b w) = classList w \<and>
            applied_mode (media_change b w) = Some (theme w)"
  proof
    assume s: "theme w \<noteq> system"
    from media_change_fixed [OF i s, of b] 1 s
    show "theme (media_change b w) = theme w \<and>
            classList (media_change b w) = classList w \<and>
            applied_mode (media_change b w) = Some (theme w)"
      by simp
  qed
  from 1 2 3 show ?thesis by blast
qed

theorem C5_witness:
  "theme (theme_run (useTheme_mount None True []) [MediaChange False, MediaChange True]) = system \<and>
   applied_mode (theme_run (useTheme_mount None True []) [MediaChange False, MediaChange True])
     = Some dark \<and>
   applied_mode (media_change False
       (theme_run (useTheme_mount None True []) [MediaChange False, MediaChange True]))
     = Some light \<and>
   theme (theme_run (useTheme_mount None True []) [SetTheme light]) = light \<and>
   applied_mode (theme_run (useTheme_mount None True []) [SetTheme light]) = Some light \<and>
   applied_mode (media_change False (theme_run (useTheme_mount None True []) [SetTheme light]))
     = Some light \<and>
   classList (media_change False (theme_run (useTheme_mount None True []) [SetTheme light]))
     = classList (theme_run (useTheme_mount None True []) [SetTheme light])"
proof -
  have s: "theme (theme_run (useTheme_mount None True []) [MediaChange False, MediaChange True])
             = system"
    by (simp add: theme_run_def useTheme_mount_def media_change_def handleChange_def
        listen_effect_def apply_effect_def Let_def)
  have d: "prefers_dark
             (theme_run (useTheme_mount None True []) [MediaChange False, MediaChange True])"
    by (simp add: theme_run_def useTheme_mount_def media_change_def handleChange_def
        listen_effect_def apply_effect_def Let_def)
  have l: "theme (theme_run (useTheme_mount None True []) [SetTheme light]) = light"
    by (simp add: theme_run_def useTheme_mount_def setTheme_def listen_cleanup_def
        listen_effect_def apply_effect_def Let_def)
  from C5_theme_resolution
         [OF refl, where b = False and stored = None and os_dark = True
            and root_classes = "[]" and evs = "[MediaChange False, MediaChange True]"]
    s d
  have a: "applied_mode
             (theme_run (useTheme_mount None True []) [MediaChange False, MediaChange True])
             = Some dark \<and>
           applied_mode (media_change False
             (theme_run (useTheme_mount None True []) [MediaChange False, MediaChange True]))
             = Some light"
    by simp
  from C5_theme_resolution
         [OF refl, where b = False and stored = None and os_dark = True
            and root_classes = "[]" and evs = "[SetTheme light]"] l
  have b: "applied_mode (theme_run (useTheme_mount None True []) [SetTheme light]) = Some light \<and>
   applied_mode (media_change False (theme_run (useTheme_mount None True []) [SetTheme light]))
     = Some light \<and>
   classList (media_change False (theme_run (useTheme_mount None True []) [SetTheme light]))
     = classList (theme_run (useTheme_mount None True []) [SetTheme light])"
    by simp
  from s l a b show ?thesis by blast
qed

section \<open>Properties of the JSON text\<close>

subsection \<open>Strings and numbers are read back\<close>

lemma unat_hex_digit: "n < 16 \<Longrightarrow> unat (hex_digit n) = (if n < 10 then 48 + n else 87 + n)"
  unfolding hex_digit_def by (auto simp only: unat_of_nat split: if_splits) simp_all

lemma hex_val_hex_digit: "n < 16 \<Longrightarrow> hex_val (hex_digit n) = Some n"
  by (auto simp: hex_val_def word_le_nat_alt unat_hex_digit)

lemma hex_recompose:
  "((n div 4096 * 16 + n div 256 mod 16) * 16 + n div 16 mod 16) * 16 + n mod 16 = (n::nat)"
proof -
  have a: "n div 4096 = n div 256 div 16" by (simp add: div_mult2_eq [symmetric])
  have b: "n div 256 = n div 16 div 16" by (simp add: div_mult2_eq [symmetric])
  have "n div 4096 * 16 + n div 256 mod 16 = n div 256" unfolding a by simp
  moreover have "n div 256 * 16 + n div 16 mod 16 = n div 16" unfolding b by simp
  ultimately show ?thesis by simp
qed

lemma hex4_UnicodeEscape:
  "hex4 (hex_digit (unat c div 4096)) (hex_digit (unat c div 256 mod 16))
        (hex_digit (unat c div 16 mod 16)) (hex_digit (unat c mod 16)) = Some (c :: jschar)"
proof -
  have "unat c < 2 ^ 16" using unsigned_less [of c, where 'a = nat] by simp
  then have "unat c div 4096 < 16" by simp
  then have h: "hex_val (hex_digit (unat c div 4096)) = Some (unat c div 4096)"
    "hex_val (hex_digit (unat c div 256 mod 16)) = Some (unat c div 256 mod 16)"
    "hex_val (hex_digit (unat c div 16 mod 16)) = Some (unat c div 16 mod 16)"
    "hex_val (hex_digit (unat c mod 16)) = Some (unat c mod 16)"
    by (simp_all add: hex_val_hex_digit)
  have "hex4 (hex_digit (unat c div 4096)) (hex_digit (unat c div 256 mod 16))
        (hex_digit (unat c div 16 mod 16)) (hex_digit (unat c mod 16))
          = Some (of_nat (unat c))"
    unfolding hex4_def h by (simp only: prod.case option.case hex_recompose)
  then show ?thesis by simp
qed

lemma parse_chars_UnicodeEscape:
  "parse_chars (UnicodeEscape c @ t) = map_option (apfst ((#) c)) (parse_chars t)"
  using hex4_UnicodeEscape [of c] by (simp add: UnicodeEscape_def)

lemma surrogate_plain:
  "is_leading_surrogate c \<or> is_trailing_surrogate c \<Longrightarrow> c \<noteq> 0x22 \<and> c \<noteq> 0x5C \<and> \<not> c < 0x20"
  by (auto simp: is_leading_surrogate_def is_trailing_surrogate_def word_le_nat_alt
      word_less_nat_alt)

lemma parse_chars_plain:
  "c \<noteq> 0x22 \<Longrightarrow> c \<noteq> 0x5C \<Longrightarrow> \<not> c < 0x20 \<Longrightarrow>
   parse_chars (c # t) = map_option (apfst ((#) c)) (parse_chars t)"
  by simp

lemma parse_chars_quote_unit:
  "parse_chars (quote_unit c @ t) = map_option (apfst ((#) c)) (parse_chars t)"
proof (cases "c \<in> {0x08, 0x09, 0x0A, 0x0C, 0x0D, 0x22, 0x5C}")
  case True
  then show ?thesis by (auto simp: quote_unit_def simple_escape_def)
next
  case False
  show ?thesis
  proof (cases "c < 0x20 \<or> is_leading_surrogate c \<or> is_trailing_surrogate c")
    case True
    with False have "quote_unit c = UnicodeEscape c" by (simp add: quote_unit_def)
    then show ?thesis by (simp add: parse_chars_UnicodeEscape)
  next
    case plain: False
    with False have "quote_unit c = [c]" by (simp add: quote_unit_def)
    with False plain show ?thesis by simp
  qed
qed

lemma parse_chars_quote_body:
  "parse_chars (quote_body s @ 0x22 # rest) = Some (s, rest)"
proof (induction s rule: quote_body.induct)
  case 1
  show ?case by simp
next
  case (2 c)
  have "parse_chars (quote_unit c @ 0x22 # rest) = Some ([c], rest)"
    unfolding parse_chars_quote_unit by simp
  then show ?case by simp
next
  case (3 c d cs)
  show ?case
  proof (cases "is_leading_surrogate c \<and> is_trailing_surrogate d")
    case True
    then have ih: "parse_chars (quote_body cs @ 0x22 # rest) = Some (cs, rest)"
      by (rule "3.IH"(1))
    from True have q: "quote_body (c # d # cs) = c # d # quote_body cs" by simp
    from True surrogate_plain [of c] surrogate_plain [of d]
    have pc: "c \<noteq> 0x22" "c \<noteq> 0x5C" "\<not> c < 0x20"
      and pd: "d \<noteq> 0x22" "d \<noteq> 0x5C" "\<not> d < 0x20"
      by blast+
    have "parse_chars (c # d # quote_body cs @ 0x22 # rest)
            = map_option (apfst ((#) c)) (map_option (apfst ((#) d))
                (parse_chars (quote_body cs @ 0x22 # rest)))"
      by (simp only: parse_chars_plain [OF pc] parse_chars_plain [OF pd])
    then show ?thesis unfolding q ih by simp
  next
    case False
    then have ih: "parse_chars (quote_body (d # cs) @ 0x22 # rest) = Some (d # cs, rest)"
      by (rule "3.IH"(2))
    from False have q: "quote_body (c # d # cs) = quote_unit c @ quote_body (d # cs)" by auto
    have "parse_chars (quote_unit c @ quote_body (d # cs) @ 0x22 # rest)
            = Some (c # d # cs, rest)"
      unfolding parse_chars_quote_unit ih by simp
    then show ?thesis unfolding q by simp
  qed
qed

lemma parse_value_QuoteJSONString:
  "parse_value (QuoteJSONString s @ rest) = Some (JString s, rest)"
  by (simp add: QuoteJSONString_def parse_chars_quote_body)

lemma is_digit_of_nat: "k < 10 \<Longrightarrow> is_digit (of_nat (48 + k))"
  unfolding is_digit_def word_le_nat_alt by (simp only: unat_of_nat) simp

lemma digit_val_of_nat: "k < 10 \<Longrightarrow> digit_val (of_nat (48 + k)) = k"
  unfolding digit_val_def by (simp only: unat_of_nat) simp

lemma nat_digits_digits: "c \<in> set (nat_digits n) \<Longrightarrow> is_digit c"
proof (induction n arbitrary: c rule: nat_digits.induct)
  case (1 n)
  show ?case
  proof (cases "n < 10")
    case True
    then have "nat_digits n = [of_nat (48 + n)]" by (subst nat_digits.simps) simp
    with "1.prems" True show ?thesis by (simp add: is_digit_of_nat del: of_nat_add)
  next
    case False
    with "1.prems" have "c \<in> set (nat_digits (n div 10)) \<or> c = of_nat (48 + n mod 10)"
      by (subst (asm) nat_digits.simps) (auto simp del: of_nat_add)
    then show ?thesis
      using "1.IH" [OF False] is_digit_of_nat [of "n mod 10"] by auto
  qed
qed

lemma digits_val_snoc: "digits_val (ds @ [d]) = 10 * digits_val ds + digit_val d"
  by (simp add: digits_val_def)

lemma digits_val_nat_digits: "digits_val (nat_digits n) = n"
proof (induction n rule: nat_digits.induct)
  case (1 n)
  show ?case
  proof (cases "n < 10")
    case True
    then have "nat_digits n = [of_nat (48 + n)]" by (subst nat_digits.simps) simp
    with True show ?thesis
      using digits_val_snoc [of "[]" "of_nat (48 + n)"] digit_val_of_nat [of n]
      by (simp add: digits_val_def del: of_nat_add)
  next
    case False
    then have "nat_digits n = nat_digits (n div 10) @ [of_nat (48 + n mod 10)]"
      by (subst nat_digits.simps) simp
    with "1.IH" [OF False] show ?thesis
      using digit_val_of_nat [of "n mod 10"] by (simp add: digits_val_snoc del: of_nat_add)
  qed
qed

lemma nat_digits_nonempty: "nat_digits n \<noteq> []"
  by (subst nat_digits.simps) simp

lemma nat_digits_zero: "nat_digits 0 = [0x30]"
  by (subst nat_digits.simps) simp

lemma hd_nat_digits_pos: "0 < n \<Longrightarrow> hd (nat_digits n) \<noteq> 0x30"
proof (induction n rule: nat_digits.induct)
  case (1 n)
  show ?case
  proof (cases "n < 10")
    case True
    then have "nat_digits n = [of_nat (48 + n)]" by (subst nat_digits.simps) simp
    moreover have "unat (of_nat (48 + n) :: jschar) = 48 + n"
      using True by (simp only: unat_of_nat) simp
    then have "(of_nat (48 + n) :: jschar) \<noteq> 0x30" using "1.prems" by auto
    ultimately show ?thesis by simp
  next
    case False
    then have "nat_digits n = nat_digits (n div 10) @ [of_nat (48 + n mod 10)]"
      by (subst nat_digits.simps) simp
    moreover from False have "0 < n div 10" by simp
    ultimately show ?thesis using "1.IH" [OF False] nat_digits_nonempty [of "n div 10"]
      by simp
  qed
qed

lemma ends_number_takeWhile: "ends_number rest \<Longrightarrow> takeWhile is_digit rest = []"
  by (cases rest) (simp_all add: ends_number_def)

lemma ends_number_dropWhile: "ends_number rest \<Longrightarrow> dropWhile is_digit rest = rest"
  by (cases rest) (simp_all add: ends_number_def)

lemma takeWhile_nat_digits:
  "ends_number rest \<Longrightarrow> takeWhile is_digit (nat_digits n @ rest) = nat_digits n"
  using nat_digits_digits by (simp add: takeWhile_append2 ends_number_takeWhile)

lemma dropWhile_nat_digits:
  "ends_number rest \<Longrightarrow> dropWhile is_digit (nat_digits n @ rest) = rest"
  using nat_digits_digits by (simp add: dropWhile_append2 ends_number_dropWhile)

lemma parse_int_part_nat_digits:
  assumes "ends_number rest"
  shows "parse_int_part (nat_digits n @ rest) = Some (nat_digits n, rest)"
proof (cases "n = 0")
  case True
  then show ?thesis by (simp add: nat_digits_zero parse_int_part_def)
next
  case False
  obtain c cs where cs: "nat_digits n = c # cs"
    using nat_digits_nonempty [of n] by (cases "nat_digits n") auto
  with False hd_nat_digits_pos [of n] have c0: "c \<noteq> 0x30" by simp
  from cs nat_digits_digits [of c n] have cd: "is_digit c" by simp
  have "parse_int_part (nat_digits n @ rest)
          = Some (takeWhile is_digit (nat_digits n @ rest), dropWhile is_digit (nat_digits n @ rest))"
    using c0 cd by (simp add: parse_int_part_def cs)
  with assms show ?thesis by (simp add: takeWhile_nat_digits dropWhile_nat_digits)
qed

lemma parse_frac_none: "ends_number rest \<Longrightarrow> parse_frac rest = Some ([], rest)"
  by (cases rest) (simp_all add: parse_frac_def ends_number_def)

lemma parse_exp_none: "ends_number rest \<Longrightarrow> parse_exp rest = Some (0, rest)"
  by (cases rest) (simp_all add: parse_exp_def ends_number_def)

lemma is_digit_not_minus: "is_digit c \<Longrightarrow> c \<noteq> 0x2D"
  by (auto simp: is_digit_def)

lemma parse_number_nat_digits:
  assumes "ends_number rest"
  shows "parse_number (nat_digits n @ rest) = Some (of_nat n, rest)"
proof -
  obtain c cs where cs: "nat_digits n = c # cs"
    using nat_digits_nonempty [of n] by (cases "nat_digits n") auto
  with nat_digits_digits [of c n] have "c \<noteq> 0x2D" by (simp add: is_digit_not_minus)
  then have "parse_number (nat_digits n @ rest) =
      (case parse_int_part (nat_digits n @ rest) of
             None \<Rightarrow> None
           | Some (ip, s2) \<Rightarrow>
               (case parse_frac s2 of
                  None \<Rightarrow> None
                | Some (fp, s3) \<Rightarrow>
                    (case parse_exp s3 of
                       None \<Rightarrow> None
                     | Some (e, s4) \<Rightarrow>
                         Some (1 * of_nat (digits_val (ip @ fp)) * pow10 (e - int (length fp)),
                               s4))))"
    by (simp add: parse_number_def cs)
  with assms show ?thesis
    by (simp add: parse_int_part_nat_digits parse_frac_none parse_exp_none
        digits_val_nat_digits pow10_def)
qed

lemma parse_number_minus_nat_digits:
  assumes "ends_number rest"
  shows "parse_number (0x2D # nat_digits n @ rest) = Some (- of_nat n, rest)"
proof -
  have "parse_number (0x2D # nat_digits n @ rest) =
      (case parse_int_part (nat_digits n @ rest) of
             None \<Rightarrow> None
           | Some (ip, s2) \<Rightarrow>
               (case parse_frac s2 of
                  None \<Rightarrow> None
                | Some (fp, s3) \<Rightarrow>
                    (case parse_exp s3 of
                       None \<Rightarrow> None
                     | Some (e, s4) \<Rightarrow>
                         Some (- 1 * of_nat (digits_val (ip @ fp)) * pow10 (e - int (length fp)),
                               s4))))"
    by (simp add: parse_number_def)
  with assms show ?thesis
    by (simp add: parse_int_part_nat_digits parse_frac_none parse_exp_none
        digits_val_nat_digits pow10_def)
qed

lemma parse_number_int_to_string:
  assumes "ends_number rest"
  shows "parse_number (int_to_string n @ rest) = Some (of_int n, rest)"
proof (cases "n < 0")
  case True
  then have "(of_int n :: rat) = - of_nat (nat (- n))" by simp
  with True assms show ?thesis
    by (simp add: int_to_string_def parse_number_minus_nat_digits del: of_nat_nat)
next
  case False
  then have "(of_int n :: rat) = of_nat (nat n)" by simp
  with False assms show ?thesis
    by (simp add: int_to_string_def parse_number_nat_digits del: of_nat_nat)
qed

lemma is_digit_not_opening: "is_digit c \<Longrightarrow> c \<noteq> 0x5B \<and> c \<noteq> 0x7B \<and> c \<noteq> 0x22"
  by (auto simp: is_digit_def)

lemma int_to_string_Cons:
  "\<exists>c cs. int_to_string n = c # cs \<and> (c = 0x2D \<or> is_digit c)"
proof (cases "n < 0")
  case True
  then show ?thesis by (simp add: int_to_string_def)
next
  case False
  obtain c cs where cs: "nat_digits (nat n) = c # cs"
    using nat_digits_nonempty [of "nat n"] by (cases "nat_digits (nat n)") auto
  with nat_digits_digits [of c "nat n"] False show ?thesis by (simp add: int_to_string_def)
qed

lemma parse_value_int_to_string:
  assumes "ends_number rest"
  shows "parse_value (int_to_string n @ rest) = Some (JNumber (of_int n), rest)"
proof -
  obtain c cs where cs: "int_to_string n = c # cs" and c: "c = 0x2D \<or> is_digit c"
    using int_to_string_Cons by blast
  from c is_digit_not_opening [of c] have "c \<noteq> 0x5B" "c \<noteq> 0x7B" "c \<noteq> 0x22" by auto
  with c have "parse_value (c # cs @ rest) = map_option (apfst JNumber) (parse_number (c # cs @ rest))"
    by simp
  with parse_number_int_to_string [OF assms, of n] cs show ?thesis by simp
qed

subsection \<open>Objects and arrays of documents are read back\<close>

lemma skip_ws_Cons: "\<not> is_ws c \<Longrightarrow> skip_ws (c # cs) = c # cs"
  by (simp add: skip_ws_def)

lemma not_ws_punct: "\<not> is_ws 0x22" "\<not> is_ws 0x3A" "\<not> is_ws 0x2C" "\<not> is_ws 0x7D"
  "\<not> is_ws 0x5D" "\<not> is_ws 0x7B" "\<not> is_ws 0x5B" "\<not> is_ws 0x2D"
  by (simp_all add: is_ws_def)

lemma is_digit_not_ws: "is_digit c \<Longrightarrow> \<not> is_ws c"
  by (auto simp: is_digit_def is_ws_def)

lemma parse_members_more:
  assumes pv: "parse_value (V @ 0x2C # after) = Some (v, 0x2C # after)"
    and hd: "V = c # cs" "\<not> is_ws c"
  shows "parse_members acc (QuoteJSONString k @ 0x3A # V @ 0x2C # after)
           = parse_members (acc @ [(k, v)]) after"
proof -
  have s: "QuoteJSONString k @ 0x3A # V @ 0x2C # after
             = 0x22 # quote_body k @ 0x22 # 0x3A # V @ 0x2C # after"
    by (simp add: QuoteJSONString_def)
  have v: "skip_ws (V @ 0x2C # after) = V @ 0x2C # after"
    using hd by (simp add: skip_ws_Cons)
  show ?thesis
    unfolding s
    by (subst parse_members.simps)
       (simp add: skip_ws_Cons not_ws_punct parse_chars_quote_body v pv)
qed

lemma parse_members_last:
  assumes pv: "parse_value (V @ 0x7D # after) = Some (v, 0x7D # after)"
    and hd: "V = c # cs" "\<not> is_ws c"
  shows "parse_members acc (QuoteJSONString k @ 0x3A # V @ 0x7D # after)
           = Some (JObject (acc @ [(k, v)]), after)"
proof -
  have s: "QuoteJSONString k @ 0x3A # V @ 0x7D # after
             = 0x22 # quote_body k @ 0x22 # 0x3A # V @ 0x7D # after"
    by (simp add: QuoteJSONString_def)
  have v: "skip_ws (V @ 0x7D # after) = V @ 0x7D # after"
    using hd by (simp add: skip_ws_Cons)
  show ?thesis
    unfolding s
    by (subst parse_members.simps)
       (simp add: skip_ws_Cons not_ws_punct parse_chars_quote_body v pv)
qed

lemma QuoteJSONString_Cons: "\<exists>cs. QuoteJSONString s = 0x22 # cs"
  by (simp add: QuoteJSONString_def)

lemma ends_number_punct: "ends_number (0x2C # after)" "ends_number (0x7D # after)"
  by (simp_all add: ends_number_def is_digit_def)

lemma string_member_more:
  "parse_members acc (QuoteJSONString k @ 0x3A # QuoteJSONString x @ 0x2C # after)
     = parse_members (acc @ [(k, JString x)]) after"
proof -
  obtain cs where cs: "QuoteJSONString x = 0x22 # cs" using QuoteJSONString_Cons by blast
  show ?thesis
    by (rule parse_members_more [OF parse_value_QuoteJSONString cs]) (rule not_ws_punct)
qed

lemma int_member_more:
  "parse_members acc (QuoteJSONString k @ 0x3A # int_to_string n @ 0x2C # after)
     = parse_members (acc @ [(k, JNumber (of_int n))]) after"
proof -
  obtain c cs where cs: "int_to_string n = c # cs" and c: "c = 0x2D \<or> is_digit c"
    using int_to_string_Cons by blast
  from c have "\<not> is_ws c" using is_digit_not_ws not_ws_punct by blast
  with parse_members_more [OF parse_value_int_to_string [OF ends_number_punct(1)] cs]
  show ?thesis by blast
qed

lemma int_member_last:
  "parse_members acc (QuoteJSONString k @ 0x3A # int_to_string n @ 0x7D # after)
     = Some (JObject (acc @ [(k, JNumber (of_int n))]), after)"
proof -
  obtain c cs where cs: "int_to_string n = c # cs" and c: "c = 0x2D \<or> is_digit c"
    using int_to_string_Cons by blast
  from c have "\<not> is_ws c" using is_digit_not_ws not_ws_punct by blast
  with parse_members_last [OF parse_value_int_to_string [OF ends_number_punct(2)] cs]
  show ?thesis by blast
qed

lemma parse_value_stringify_FileItem:
  "parse_value (stringify_FileItem f @ rest) = Some (json_of_FileItem f, rest)"
proof -
  define m5 where "m5 = QuoteJSONString (str ''updatedAt'') @ 0x3A # int_to_string (updatedAt f) @ 0x7D # rest"
  define m4 where "m4 = QuoteJSONString (str ''createdAt'') @ 0x3A # int_to_string (createdAt f) @ 0x2C # m5"
  define m3 where "m3 = QuoteJSONString (str ''content'') @ 0x3A # QuoteJSONString (content f) @ 0x2C # m4"
  define m2 where "m2 = QuoteJSONString (str ''name'') @ 0x3A # QuoteJSONString (name f) @ 0x2C # m3"
  define m1 where "m1 = QuoteJSONString (str ''id'') @ 0x3A # QuoteJSONString (id_file f) @ 0x2C # m2"
  have shape: "stringify_FileItem f @ rest = 0x7B # m1"
    by (simp add: stringify_FileItem_def m1_def m2_def m3_def m4_def m5_def)
  obtain cs where cs: "m1 = 0x22 # cs"
    using QuoteJSONString_Cons [of "str ''id''"] by (auto simp: m1_def)
  have "parse_value (0x7B # m1) = parse_members [] m1"
    by (simp add: cs skip_ws_Cons not_ws_punct)
  also have "\<dots> = parse_members [(str ''id'', JString (id_file f))] m2"
    unfolding m1_def by (simp add: string_member_more)
  also have "\<dots> = parse_members [(str ''id'', JString (id_file f)),
                                    (str ''name'', JString (name f))] m3"
    unfolding m2_def by (simp add: string_member_more)
  also have "\<dots> = parse_members [(str ''id'', JString (id_file f)),
                                    (str ''name'', JString (name f)),
                                    (str ''content'', JString (content f))] m4"
    unfolding m3_def by (simp add: string_member_more)
  also have "\<dots> = parse_members [(str ''id'', JString (id_file f)),
                                    (str ''name'', JString (name f)),
                                    (str ''content'', JString (content f)),
                                    (str ''createdAt'', JNumber (of_int (createdAt f)))] m5"
    unfolding m4_def by (simp add: int_member_more)
  also have "\<dots> = Some (json_of_FileItem f, rest)"
    unfolding m5_def by (simp add: int_member_last json_of_FileItem_def)
  finally show ?thesis unfolding shape .
qed

lemma stringify_FileItem_Cons: "\<exists>cs. stringify_FileItem f = 0x7B # cs"
  by (simp add: stringify_FileItem_def)

lemma parse_elements_last:
  "parse_elements acc (stringify_FileItem f @ 0x5D # rest)
     = Some (JArray (acc @ [json_of_FileItem f]), rest)"
proof -
  obtain cs where cs: "stringify_FileItem f = 0x7B # cs"
    using stringify_FileItem_Cons by blast
  have v: "skip_ws (stringify_FileItem f @ 0x5D # rest) = stringify_FileItem f @ 0x5D # rest"
    by (simp add: cs skip_ws_Cons not_ws_punct)
  show ?thesis
    by (subst parse_elements.simps)
       (simp add: v parse_value_stringify_FileItem skip_ws_Cons not_ws_punct)
qed

lemma parse_elements_after:
  "parse_elements acc (stringify_FileItem f @ 0x2C # after)
     = parse_elements (acc @ [json_of_FileItem f]) after"
proof -
  obtain cs where cs: "stringify_FileItem f = 0x7B # cs"
    using stringify_FileItem_Cons by blast
  have v: "skip_ws (stringify_FileItem f @ 0x2C # after) = stringify_FileItem f @ 0x2C # after"
    by (simp add: cs skip_ws_Cons not_ws_punct)
  show ?thesis
    by (subst parse_elements.simps)
       (simp add: v parse_value_stringify_FileItem skip_ws_Cons not_ws_punct)
qed

lemma parse_elements_join_comma:
  "parse_elements acc (join_comma (map stringify_FileItem (f # fs)) @ 0x5D # rest)
     = Some (JArray (acc @ map json_of_FileItem (f # fs)), rest)"
proof (induction fs arbitrary: f acc)
  case Nil
  show ?case by (simp add: parse_elements_last)
next
  case (Cons g gs)
  have "parse_elements acc (join_comma (map stringify_FileItem (f # g # gs)) @ 0x5D # rest)
          = parse_elements acc (stringify_FileItem f @ 0x2C #
              (join_comma (map stringify_FileItem (g # gs)) @ 0x5D # rest))"
    by simp
  also have "\<dots> = parse_elements (acc @ [json_of_FileItem f])
                        (join_comma (map stringify_FileItem (g # gs)) @ 0x5D # rest)"
    by (rule parse_elements_after)
  also have "\<dots> = Some (JArray ((acc @ [json_of_FileItem f]) @ map json_of_FileItem (g # gs)), rest)"
    by (rule Cons.IH)
  finally show ?case by simp
qed

lemma parse_value_JSON_stringify:
  "parse_value (JSON_stringify files @ rest) = Some (json_of_files files, rest)"
proof (cases files)
  case Nil
  then show ?thesis
    by (simp add: JSON_stringify_def json_of_files_def skip_ws_Cons not_ws_punct)
next
  case (Cons f fs)
  obtain cs where cs: "stringify_FileItem f = 0x7B # cs"
    using stringify_FileItem_Cons by blast
  define J where "J = join_comma (map stringify_FileItem (f # fs)) @ 0x5D # rest"
  obtain ds where ds: "J = 0x7B # ds"
    using cs by (cases fs) (auto simp: J_def)
  have "parse_value (0x5B # J) = parse_elements [] J"
    unfolding ds by (simp add: skip_ws_Cons not_ws_punct)
  also have "\<dots> = Some (JArray ([] @ map json_of_FileItem (f # fs)), rest)"
    unfolding J_def by (rule parse_elements_join_comma)
  finally have "parse_value (0x5B # J) = Some (json_of_files files, rest)"
    by (simp add: Cons json_of_files_def)
  moreover have "JSON_stringify files @ rest = 0x5B # J"
    by (simp add: Cons JSON_stringify_def J_def)
  ultimately show ?thesis by simp
qed

lemma JSON_stringify_Cons: "\<exists>cs. JSON_stringify files = 0x5B # cs"
  by (simp add: JSON_stringify_def)

lemma JSON_parse_JSON_stringify: "JSON_parse (JSON_stringify files) = Some (json_of_files files)"
proof -
  obtain cs where cs: "JSON_stringify files = 0x5B # cs" using JSON_stringify_Cons by blast
  have "skip_ws (JSON_stringify files) = JSON_stringify files"
    by (simp add: cs skip_ws_Cons not_ws_punct)
  moreover have "parse_value (JSON_stringify files) = Some (json_of_files files, [])"
    using parse_value_JSON_stringify [of files "[]"] by simp
  ultimately show ?thesis by (simp add: JSON_parse_def skip_ws_def)
qed

lemma as_FileItem_json_of: "as_FileItem (json_of_FileItem f) = Some f"
  by (simp add: as_FileItem_def json_of_FileItem_def string_property_def integer_property_def
      property_def str_def)

lemma as_FileItems_json_of: "as_FileItems (json_of_files files) = Some files"
proof -
  have "all_some (map as_FileItem (map json_of_FileItem files)) = Some files"
    by (induction files) (simp_all add: as_FileItem_json_of)
  then show ?thesis by (simp add: as_FileItems_def json_of_files_def)
qed

lemma useFiles_init_persist: "useFiles_init (persist files st) = json_of_files files"
proof -
  obtain cs where cs: "JSON_stringify files = 0x5B # cs" using JSON_stringify_Cons by blast
  then have "JSON_stringify files \<noteq> []" by simp
  then show ?thesis
    by (simp add: useFiles_init_def persist_def JSON_parse_JSON_stringify)
qed

subsection \<open>The length tests of the parser never fail\<close>

lemma length_skip_ws: "length (skip_ws s) \<le> length s"
  by (simp add: skip_ws_def length_dropWhile_le)

lemma skip_ws_Cons_length: "skip_ws r = d # r' \<Longrightarrow> length r' < length r"
  using length_skip_ws [of r] by simp

lemma parse_chars_shorter: "parse_chars s = Some (x, r) \<Longrightarrow> length r < length s"
proof (induction s arbitrary: x r rule: parse_chars.induct)
  case 1
  then show ?case by simp
next
  case (2 c cs)
  then show ?case
    by (fastforce split: if_splits list.splits option.splits)
qed

lemma parse_int_part_shorter: "parse_int_part s = Some (ip, r) \<Longrightarrow> length r < length s"
  by (cases s) (auto simp: parse_int_part_def split: if_splits
        intro: le_less_trans [OF length_dropWhile_le])

lemma parse_frac_shorter: "parse_frac s = Some (fp, r) \<Longrightarrow> length r \<le> length s"
  by (cases s) (auto simp: parse_frac_def split: if_splits
        intro: le_trans [OF length_dropWhile_le])

lemma parse_sign_shorter: "parse_sign s = (neg, r) \<Longrightarrow> length r \<le> length s"
  by (cases s) (auto simp: parse_sign_def split: if_splits)

lemma parse_exp_shorter: "parse_exp s = Some (e, r) \<Longrightarrow> length r \<le> length s"
proof (cases s)
  case Nil
  assume "parse_exp s = Some (e, r)"
  with Nil show ?thesis by (simp add: parse_exp_def)
next
  case (Cons c cs)
  assume a: "parse_exp s = Some (e, r)"
  show ?thesis
  proof (cases "c = 0x65 \<or> c = 0x45")
    case False
    with a Cons show ?thesis by (auto simp: parse_exp_def)
  next
    case True
    obtain neg ds where nd: "parse_sign cs = (neg, ds)" by (cases "parse_sign cs")
    with a Cons True have "r = dropWhile is_digit ds"
      by (auto simp: parse_exp_def split: if_splits)
    then have "length r \<le> length ds" by (simp add: length_dropWhile_le)
    with parse_sign_shorter [OF nd] Cons show ?thesis by simp
  qed
qed

lemma parse_number_shorter: "parse_number s = Some (x, r) \<Longrightarrow> length r < length s"
proof -
  assume a: "parse_number s = Some (x, r)"
  define s1 where "s1 = (case s of [] \<Rightarrow> s | c # cs \<Rightarrow> if c = 0x2D then cs else s)"
  have s1: "length s1 \<le> length s" by (cases s) (simp_all add: s1_def)
  from a obtain ip s2 fp s3 e where
    "parse_int_part s1 = Some (ip, s2)" "parse_frac s2 = Some (fp, s3)"
    "parse_exp s3 = Some (e, r)"
    by (cases s) (auto simp: parse_number_def s1_def split: option.splits if_splits)
  with parse_int_part_shorter [of s1 ip s2] parse_frac_shorter [of s2 fp s3]
    parse_exp_shorter [of s3 e r] s1
  show ?thesis by simp
qed

lemma parse_value_shorter_aux:
  "\<forall>v r. parse_value s = Some (v, r) \<longrightarrow> length r < length s"
  "\<forall>v r. parse_elements acc s' = Some (v, r) \<longrightarrow> length r < length s'"
  "\<forall>v r. parse_members acc' s'' = Some (v, r) \<longrightarrow> length r < length s''"
proof (induction s and acc s' and acc' s'' rule: parse_value_parse_elements_parse_members.induct)
  case 1
  show ?case by simp
next
  case (2 c cs)
  show ?case
  proof (intro allI impI)
    fix v r
    assume a: "parse_value (c # cs) = Some (v, r)"
    consider (arr) "c = 0x5B" | (obj) "c \<noteq> 0x5B" "c = 0x7B"
      | (strg) "c \<noteq> 0x5B" "c \<noteq> 0x7B" "c = 0x22"
      | (num) "c \<noteq> 0x5B" "c \<noteq> 0x7B" "c \<noteq> 0x22" "c = 0x2D \<or> is_digit c"
      | (lit) "c \<noteq> 0x5B" "c \<noteq> 0x7B" "c \<noteq> 0x22" "\<not> (c = 0x2D \<or> is_digit c)"
      by blast
    then show "length r < length (c # cs)"
    proof cases
      case arr
      show ?thesis
      proof (cases "skip_ws cs")
        case Nil
        with a arr show ?thesis by simp
      next
        case (Cons d r')
        show ?thesis
        proof (cases "d = 0x5D")
          case True
          with a arr Cons have "r = r'" by simp
          with skip_ws_Cons_length [OF Cons] show ?thesis by simp
        next
          case False
          with a arr Cons have "parse_elements [] cs = Some (v, r)" by simp
          with "2.IH"(1) [OF arr Cons False] show ?thesis by fastforce
        qed
      qed
    next
      case obj
      show ?thesis
      proof (cases "skip_ws cs")
        case Nil
        with a obj show ?thesis by simp
      next
        case (Cons d r')
        show ?thesis
        proof (cases "d = 0x7D")
          case True
          with a obj Cons have "r = r'" by simp
          with skip_ws_Cons_length [OF Cons] show ?thesis by simp
        next
          case False
          with a obj Cons have "parse_members [] cs = Some (v, r)" by simp
          with "2.IH"(2) [OF obj Cons False] show ?thesis by fastforce
        qed
      qed
    next
      case strg
      with a obtain x where "parse_chars cs = Some (x, r)" by auto
      from parse_chars_shorter [OF this] show ?thesis by simp
    next
      case num
      with a obtain x where "parse_number (c # cs) = Some (x, r)" by auto
      from parse_number_shorter [OF this] show ?thesis .
    next
      case lit
      with a show ?thesis by (auto split: if_splits)
    qed
  qed
next
  case (3 acc s)
  show ?case
  proof (intro allI impI)
    fix v r
    assume a: "parse_elements acc s = Some (v, r)"
    then obtain x r1 where pv: "parse_value (skip_ws s) = Some (x, r1)"
      by (subst (asm) parse_elements.simps) (auto split: option.splits)
    with "3.IH"(1) have l1: "length r1 < length (skip_ws s)" by blast
    from a pv obtain d r2 where sk: "skip_ws r1 = d # r2"
      by (subst (asm) parse_elements.simps) (auto split: list.splits)
    from skip_ws_Cons_length [OF sk] l1 length_skip_ws [of s]
    have l2: "length r2 < length s" by simp
    show "length r < length s"
    proof (cases "d = 0x2C")
      case True
      with a pv sk l2 have rec: "parse_elements (acc @ [x]) r2 = Some (v, r)"
        by (subst (asm) parse_elements.simps) simp
      from "3.IH"(2) [OF pv refl sk True l2] rec have "length r < length r2" by blast
      with l2 show ?thesis by simp
    next
      case False
      with a pv sk have "r = r2"
        by (subst (asm) parse_elements.simps) (auto split: if_splits)
      with l2 show ?thesis by simp
    qed
  qed
next
  case (4 acc s)
  show ?case
  proof (intro allI impI)
    fix v r
    assume a: "parse_members acc s = Some (v, r)"
    then obtain q s1 where s0: "skip_ws s = q # s1" and q: "q = 0x22"
      by (subst (asm) parse_members.simps) (auto split: list.splits if_splits)
    from a s0 q obtain k s2 where pc: "parse_chars s1 = Some (k, s2)"
      by (subst (asm) parse_members.simps) (auto split: option.splits)
    from a s0 q pc obtain colon s3 where s2: "skip_ws s2 = colon # s3" and colon: "colon = 0x3A"
      by (subst (asm) parse_members.simps) (auto split: list.splits if_splits)
    from a s0 q pc s2 colon have g: "length (skip_ws s3) < length s"
      by (subst (asm) parse_members.simps) (auto split: if_splits)
    from a s0 q pc s2 colon g obtain x s4 where pv: "parse_value (skip_ws s3) = Some (x, s4)"
      by (subst (asm) parse_members.simps) (auto split: option.splits)
    from a s0 q pc s2 colon g pv obtain d s5 where s4: "skip_ws s4 = d # s5"
      by (subst (asm) parse_members.simps) (auto split: list.splits)
    from "4.IH"(1) [OF s0 q pc refl s2 colon g] pv have "length s4 < length (skip_ws s3)"
      by blast
    with skip_ws_Cons_length [OF s4] g have l5: "length s5 < length s" by simp
    show "length r < length s"
    proof (cases "d = 0x2C")
      case True
      with a s0 q pc s2 colon g pv s4 l5 have rec: "parse_members (acc @ [(k, x)]) s5 = Some (v, r)"
        by (subst (asm) parse_members.simps) simp
      from "4.IH"(2) [OF s0 q pc refl s2 colon g pv refl s4 True l5] rec
      have "length r < length s5" by blast
      with l5 show ?thesis by simp
    next
      case False
      with a s0 q pc s2 colon g pv s4 have "r = s5"
        by (subst (asm) parse_members.simps) (auto split: if_splits)
      with l5 show ?thesis by simp
    qed
  qed
qed

lemma parse_value_shorter: "parse_value s = Some (v, r) \<Longrightarrow> length r < length s"
  using parse_value_shorter_aux(1) by blast

lemma parse_elements_unguarded:
  "parse_elements acc s =
     (case parse_value (skip_ws s) of
        None \<Rightarrow> None
      | Some (v, r) \<Rightarrow>
          (case skip_ws r of
             [] \<Rightarrow> None
           | d # r' \<Rightarrow>
               if d = 0x2C then parse_elements (acc @ [v]) r'
               else if d = 0x5D then Some (JArray (acc @ [v]), r')
               else None))"
proof (cases "parse_value (skip_ws s)")
  case None
  then show ?thesis by (subst parse_elements.simps) simp
next
  case (Some p)
  obtain v r where p: "p = (v, r)" by (cases p)
  from parse_value_shorter [of "skip_ws s" v r] Some p length_skip_ws [of s]
  have l: "length r < length s" by simp
  show ?thesis
  proof (cases "skip_ws r")
    case Nil
    with Some p show ?thesis by (subst parse_elements.simps) simp
  next
    case (Cons d r')
    from skip_ws_Cons_length [OF Cons] l have "length r' < length s" by simp
    with Some p Cons show ?thesis by (subst parse_elements.simps) simp
  qed
qed

lemma parse_members_unguarded:
  "parse_members acc s =
     (case skip_ws s of
        [] \<Rightarrow> None
      | q # s1 \<Rightarrow>
          if q = 0x22 then
            (case parse_chars s1 of
               None \<Rightarrow> None
             | Some (k, s2) \<Rightarrow>
                 (case skip_ws s2 of
                    [] \<Rightarrow> None
                  | colon # s3 \<Rightarrow>
                      if colon = 0x3A then
                        (case parse_value (skip_ws s3) of
                           None \<Rightarrow> None
                         | Some (v, s4) \<Rightarrow>
                             (case skip_ws s4 of
                                [] \<Rightarrow> None
                              | d # s5 \<Rightarrow>
                                  if d = 0x2C then parse_members (acc @ [(k, v)]) s5
                                  else if d = 0x7D then Some (JObject (acc @ [(k, v)]), s5)
                                  else None))
                      else None))
          else None)"
proof (cases "skip_ws s")
  case Nil
  then show ?thesis by (subst parse_members.simps) simp
next
  case s0: (Cons q s1)
  from skip_ws_Cons_length [OF s0] have l1: "length s1 < length s" .
  show ?thesis
  proof (cases "parse_chars s1")
    case None
    with s0 show ?thesis by (subst parse_members.simps) simp
  next
    case (Some p)
    obtain k s2 where p: "p = (k, s2)" by (cases p)
    from parse_chars_shorter [of s1 k s2] Some p l1 have l2: "length s2 < length s" by simp
    show ?thesis
    proof (cases "skip_ws s2")
      case Nil
      with s0 Some p show ?thesis by (subst parse_members.simps) simp
    next
      case s2: (Cons colon s3)
      from skip_ws_Cons_length [OF s2] l2 length_skip_ws [of s3]
      have g: "length (skip_ws s3) < length s" by simp
      show ?thesis
      proof (cases "parse_value (skip_ws s3)")
        case None
        with s0 Some p s2 show ?thesis by (subst parse_members.simps) simp
      next
        case pv: (Some p')
        obtain v s4 where p': "p' = (v, s4)" by (cases p')
        from parse_value_shorter [of "skip_ws s3" v s4] pv p' g
        have l4: "length s4 < length s" by simp
        show ?thesis
        proof (cases "skip_ws s4")
          case Nil
          with s0 Some p s2 pv p' show ?thesis by (subst parse_members.simps) simp
        next
          case (Cons d s5)
          from skip_ws_Cons_length [OF Cons] l4 have "length s5 < length s" by simp
          with s0 Some p s2 pv p' g Cons show ?thesis by (subst parse_members.simps) simp
        qed
      qed
    qed
  qed
qed

subsection \<open>The registry's round trip through the store\<close>

text \<open>
  C7. For every collection, \<open>JSON.parse\<close> of \<open>JSON.stringify\<close> of the collection is the
  array of the documents' objects, in the same order, and read at the type \<open>FileItem[]\<close>
  it is the collection itself: the id, name and content of every document (all code
  units of a string, escaped or not) and both timestamps (integers) come back as they
  were. The same holds through the store: the initial state that \<open>useFiles\<close> computes
  from a store into which the collection was persisted is the collection.
\<close>

theorem C7_round_trip:
  "JSON_parse (JSON_stringify files) = Some (json_of_files files) \<and>
   as_FileItems (json_of_files files) = Some files \<and>
   as_FileItems (useFiles_init (persist files st)) = Some files"
  by (simp add: JSON_parse_JSON_stringify as_FileItems_json_of useFiles_init_persist)

text \<open>
  C4 at a stored text that is valid JSON but no array of documents (\<open>{}\<close>, or \<open>null\<close>):
  \<open>JSON.parse\<close> does not throw, so the \<open>catch\<close> branch is not taken, and the initial state
  is the parsed object (or \<open>null\<close>), which is not a \<open>FileItem[]\<close> and not the empty
  collection.
\<close>

theorem C4_valid_json_of_wrong_shape:
  "store_with_object STORAGE_KEY = Some (str ''{}'') \<and>
   JSON_parse (str ''{}'') = Some (JObject []) \<and>
   useFiles_init store_with_object = JObject [] \<and>
   as_FileItems (useFiles_init store_with_object) = None \<and>
   store_with_null STORAGE_KEY = Some (str ''null'') \<and>
   JSON_parse (str ''null'') = Some JNull \<and>
   useFiles_init store_with_null = JNull \<and>
   as_FileItems (useFiles_init store_with_null) = None"
proof -
  have o: "JSON_parse (str ''{}'') = Some (JObject [])"
    by (simp add: JSON_parse_def str_def skip_ws_def is_ws_def)
  have n: "JSON_parse (str ''null'') = Some JNull"
    by (simp add: JSON_parse_def str_def skip_ws_def is_ws_def is_digit_def)
  have so: "store_with_object STORAGE_KEY = Some (str ''{}'')"
    by (simp add: store_with_object_def)
  have sn: "store_with_null STORAGE_KEY = Some (str ''null'')"
    by (simp add: store_with_null_def)
  have io: "useFiles_init store_with_object = JObject []"
    unfolding useFiles_init_def so using o by (simp add: str_def)
  have inn: "useFiles_init store_with_null = JNull"
    unfolding useFiles_init_def sn using n by (simp add: str_def)
  from o n so sn io inn show ?thesis by (simp add: as_FileItems_def)
qed

text \<open>What the initial state is in general: empty for an absent key and for a text that
  \<open>JSON.parse\<close> rejects (the empty text is one), the parsed value otherwise.\<close>

lemma useFiles_init_cases:
  "useFiles_init st =
     (case st STORAGE_KEY of
        None \<Rightarrow> JArray []
      | Some stored \<Rightarrow>
          (case JSON_parse stored of None \<Rightarrow> JArray [] | Some v \<Rightarrow> v))"
proof (cases "st STORAGE_KEY")
  case None
  then show ?thesis by (simp add: useFiles_init_def)
next
  case (Some stored)
  have "JSON_parse [] = None" by (simp add: JSON_parse_def skip_ws_def)
  with Some show ?thesis by (cases "stored = []") (simp_all add: useFiles_init_def)
qed

end
